theory Spec2Isabelle
  imports Complex_Main "HOL-Library.Multiset"
begin

section \<open>Data model of queue\_simulation.py\<close>

text \<open>
  Python floats are modelled as reals (rounding is abstracted away), Python ints as
  \<open>int\<close>, lists and deques as lists, exceptions as values of \<open>py_error\<close>.
\<close>

datatype py_error = TypeError | ZeroDivisionError | ValueError | IndexError

text \<open>The dataclass \<open>Customer\<close>; the field \<open>id\<close> is named \<open>cust_id\<close> here.\<close>

record Customer =
  cust_id :: int
  arrival_time :: real
  service_start_time :: "real option"
  departure_time :: "real option"

definition waiting_time :: "Customer \<Rightarrow> real option" where
  "waiting_time c =
     (case service_start_time c of None \<Rightarrow> None | Some st \<Rightarrow> Some (st - arrival_time c))"

definition system_time :: "Customer \<Rightarrow> real option" where
  "system_time c =
     (case departure_time c of None \<Rightarrow> None | Some d \<Rightarrow> Some (d - arrival_time c))"

text \<open>
  The event type is one of the two strings \<open>'arrival'\<close> and \<open>'departure'\<close>; Python
  orders them as strings, so \<open>'arrival' < 'departure'\<close>.
\<close>

datatype event_kind = Arrival | Departure

fun kind_lt :: "event_kind \<Rightarrow> event_kind \<Rightarrow> bool" where
  "kind_lt Arrival Departure = True"
| "kind_lt _ _ = False"

text \<open>An event is the tuple \<open>(time, event_type, data)\<close> pushed by \<open>schedule_event\<close>.\<close>

type_synonym event = "real \<times> event_kind \<times> Customer"

definition ev_time :: "event \<Rightarrow> real" where
  "ev_time e = fst e"

definition ev_kind :: "event \<Rightarrow> event_kind" where
  "ev_kind e = fst (snd e)"

definition ev_data :: "event \<Rightarrow> Customer" where
  "ev_data e = snd (snd e)"

text \<open>
  Python's \<open><\<close> on two such tuples: the first position where the tuples differ (by
  \<open>==\<close>) decides. Floats and strings are ordered; \<open>Customer\<close> is a dataclass without
  \<open>order=True\<close>, so it has the generated \<open>__eq__\<close> (field-wise) but no \<open>__lt__\<close>, and
  comparing two different customers raises TypeError.
\<close>

definition event_lt :: "event \<Rightarrow> event \<Rightarrow> py_error + bool" where
  "event_lt a b =
     (if ev_time a \<noteq> ev_time b then Inr (ev_time a < ev_time b)
      else if ev_kind a \<noteq> ev_kind b then Inr (kind_lt (ev_kind a) (ev_kind b))
      else if ev_data a \<noteq> ev_data b then Inl TypeError
      else Inr False)"

section \<open>The heapq module, as used by the event queue\<close>

text \<open>
  \<open>_siftdown(heap, startpos, pos)\<close>: the loop, with \<open>newitem\<close> read before it and
  written back after it.
\<close>

function siftdown_loop :: "event list \<Rightarrow> nat \<Rightarrow> nat \<Rightarrow> event \<Rightarrow> py_error + event list" where
  "siftdown_loop heap startpos pos newitem =
     (if pos > startpos then
        (let parentpos = (pos - 1) div 2;
             parent = heap ! parentpos
         in case event_lt newitem parent of
              Inl err \<Rightarrow> Inl err
            | Inr b \<Rightarrow>
                if b then siftdown_loop (heap[pos := parent]) startpos parentpos newitem
                else Inr (heap[pos := newitem]))
      else Inr (heap[pos := newitem]))"
  by pat_completeness auto
termination
  by (relation "measure (\<lambda>(heap, startpos, pos, newitem). pos)") auto

definition siftdown :: "event list \<Rightarrow> nat \<Rightarrow> nat \<Rightarrow> py_error + event list" where
  "siftdown heap startpos pos =
     (if pos < length heap then siftdown_loop heap startpos pos (heap ! pos)
      else Inl IndexError)"

text \<open>
  \<open>_siftup(heap, pos)\<close>: the loop moves the smaller child up until a leaf is reached
  and returns the heap with the position of that leaf.
\<close>

function siftup_loop :: "event list \<Rightarrow> nat \<Rightarrow> nat \<Rightarrow> py_error + (event list \<times> nat)" where
  "siftup_loop heap endpos pos =
     (let childpos = 2 * pos + 1 in
      if childpos < endpos then
        (let rightpos = childpos + 1 in
         case (if rightpos < endpos
               then (case event_lt (heap ! childpos) (heap ! rightpos) of
                       Inl err \<Rightarrow> Inl err | Inr b \<Rightarrow> Inr (\<not> b))
               else Inr False) of
           Inl err \<Rightarrow> Inl err
         | Inr right \<Rightarrow>
             (let childpos' = (if right then rightpos else childpos)
              in siftup_loop (heap[pos := heap ! childpos']) endpos childpos'))
      else Inr (heap, pos))"
  by pat_completeness auto
termination
  by (relation "measure (\<lambda>(heap, endpos, pos). endpos - pos)") (auto split: if_splits)

definition siftup :: "event list \<Rightarrow> nat \<Rightarrow> py_error + event list" where
  "siftup heap pos =
     (if pos < length heap then
        (let newitem = heap ! pos in
         case siftup_loop heap (length heap) pos of
           Inl err \<Rightarrow> Inl err
         | Inr (heap', pos') \<Rightarrow> siftdown (heap'[pos' := newitem]) pos pos')
      else Inl IndexError)"

definition heappush :: "event list \<Rightarrow> event \<Rightarrow> py_error + event list" where
  "heappush heap item = siftdown (heap @ [item]) 0 (length heap)"

definition heappop :: "event list \<Rightarrow> py_error + (event \<times> event list)" where
  "heappop heap =
     (if heap = [] then Inl IndexError
      else
        (let lastelt = last heap; rest = butlast heap in
         if rest \<noteq> [] then
           (let returnitem = rest ! 0 in
            case siftup (rest[0 := lastelt]) 0 of
              Inl err \<Rightarrow> Inl err
            | Inr heap' \<Rightarrow> Inr (returnitem, heap'))
         else Inr (lastelt, rest)))"

section \<open>The simulation engine\<close>

text \<open>
  The attributes of \<open>QueueSimulation\<close>. The last field is not an attribute of the
  class: \<open>rng_drawn\<close> counts the variates drawn so far from the global generator of
  the \<open>random\<close> module, which every instance shares.
\<close>

record QueueSimulation =
  num_servers :: int
  arrival_rate :: real
  service_rate :: real
  current_time :: real
  event_queue :: "event list"
  waiting_queue :: "Customer list"
  busy_servers :: int
  next_customer_id :: int
  customers_arrived :: int
  customers_served :: int
  total_waiting_time :: real
  total_system_time :: real
  queue_length_sum :: real
  last_event_time :: real
  max_queue_length :: int
  time_history :: "real list"
  queue_length_history :: "int list"
  customers_in_system_history :: "int list"
  rng_drawn :: nat

text \<open>
  \<open>__init__\<close> stores its arguments and sets every other attribute; \<open>init_state\<close> is
  the instance it builds, \<open>r\<close> being the position of the global generator at the
  call. \<open>__init__\<close> has no \<open>raise\<close> and no check; its result is a sum so that
  "construction fails" can be stated at all.
\<close>

definition init_state :: "nat \<Rightarrow> int \<Rightarrow> real \<Rightarrow> real \<Rightarrow> QueueSimulation" where
  "init_state r c lam mu =
     \<lparr> num_servers = c, arrival_rate = lam, service_rate = mu,
       current_time = 0, event_queue = [], waiting_queue = [], busy_servers = 0,
       next_customer_id = 0, customers_arrived = 0, customers_served = 0,
       total_waiting_time = 0, total_system_time = 0, queue_length_sum = 0,
       last_event_time = 0, max_queue_length = 0, time_history = [],
       queue_length_history = [], customers_in_system_history = [], rng_drawn = r \<rparr>"

definition QueueSimulation_init :: "nat \<Rightarrow> int \<Rightarrow> real \<Rightarrow> real \<Rightarrow> py_error + QueueSimulation" where
  "QueueSimulation_init r c lam mu = Inr (init_state r c lam mu)"

definition reset :: "QueueSimulation \<Rightarrow> py_error + QueueSimulation" where
  "reset s = QueueSimulation_init (rng_drawn s) (num_servers s) (arrival_rate s) (service_rate s)"

definition schedule_event ::
  "QueueSimulation \<Rightarrow> real \<Rightarrow> event_kind \<Rightarrow> Customer \<Rightarrow> py_error + QueueSimulation" where
  "schedule_event s t kind data =
     (case heappush (event_queue s) (t, kind, data) of
        Inl err \<Rightarrow> Inl err
      | Inr q \<Rightarrow> Inr (s\<lparr>event_queue := q\<rparr>))"

text \<open>
  \<open>random.expovariate(lambd)\<close> is \<open>-log(1.0 - random()) / lambd\<close>. The source of
  randomness is the sequence \<open>xi\<close>: \<open>xi n\<close> is the value of \<open>-log(1.0 - random())\<close>
  at the \<open>n\<close>-th call, a non-negative number because \<open>random()\<close> lies in \<open>[0, 1)\<close>.
  Division by a zero rate raises ZeroDivisionError.
\<close>

definition expovariate ::
  "(nat \<Rightarrow> real) \<Rightarrow> QueueSimulation \<Rightarrow> real \<Rightarrow> py_error + (real \<times> QueueSimulation)" where
  "expovariate xi s lambd =
     (if lambd = 0 then Inl ZeroDivisionError
      else Inr (xi (rng_drawn s) / lambd, s\<lparr>rng_drawn := Suc (rng_drawn s)\<rparr>))"

definition generate_interarrival_time ::
  "(nat \<Rightarrow> real) \<Rightarrow> QueueSimulation \<Rightarrow> py_error + (real \<times> QueueSimulation)" where
  "generate_interarrival_time xi s = expovariate xi s (arrival_rate s)"

definition generate_service_time ::
  "(nat \<Rightarrow> real) \<Rightarrow> QueueSimulation \<Rightarrow> py_error + (real \<times> QueueSimulation)" where
  "generate_service_time xi s = expovariate xi s (service_rate s)"

definition update_statistics :: "QueueSimulation \<Rightarrow> real \<Rightarrow> QueueSimulation" where
  "update_statistics s time_delta =
     (let queue_length = int (length (waiting_queue s)) in
      s\<lparr>queue_length_sum := queue_length_sum s + of_int queue_length * time_delta,
        max_queue_length := max (max_queue_length s) queue_length\<rparr>)"

text \<open>The part of both handlers that starts a service: draw, then schedule the departure.\<close>

definition start_service ::
  "(nat \<Rightarrow> real) \<Rightarrow> QueueSimulation \<Rightarrow> Customer \<Rightarrow> py_error + QueueSimulation" where
  "start_service xi s customer =
     (let customer' = customer\<lparr>service_start_time := Some (current_time s)\<rparr> in
      case generate_service_time xi s of
        Inl err \<Rightarrow> Inl err
      | Inr (service_time, s') \<Rightarrow>
          schedule_event s' (current_time s' + service_time) Departure customer')"

definition handle_arrival ::
  "(nat \<Rightarrow> real) \<Rightarrow> QueueSimulation \<Rightarrow> Customer \<Rightarrow> py_error + QueueSimulation" where
  "handle_arrival xi s customer =
     (let s1 = s\<lparr>customers_arrived := customers_arrived s + 1\<rparr> in
      case (if busy_servers s1 < num_servers s1
            then start_service xi (s1\<lparr>busy_servers := busy_servers s1 + 1\<rparr>) customer
            else Inr (s1\<lparr>waiting_queue := waiting_queue s1 @ [customer]\<rparr>)) of
        Inl err \<Rightarrow> Inl err
      | Inr s2 \<Rightarrow>
          (case generate_interarrival_time xi s2 of
             Inl err \<Rightarrow> Inl err
           | Inr (gap, s3) \<Rightarrow>
               (let next_arrival_time = current_time s3 + gap;
                    next_customer = \<lparr>cust_id = next_customer_id s3,
                      arrival_time = next_arrival_time,
                      service_start_time = None, departure_time = None\<rparr>;
                    s4 = s3\<lparr>next_customer_id := next_customer_id s3 + 1\<rparr>
                in schedule_event s4 next_arrival_time Arrival next_customer)))"

text \<open>
  \<open>total_waiting_time += customer.waiting_time\<close> adds \<open>None\<close> to a float when the
  customer never started service, which raises TypeError.
\<close>

definition handle_departure ::
  "(nat \<Rightarrow> real) \<Rightarrow> QueueSimulation \<Rightarrow> Customer \<Rightarrow> py_error + QueueSimulation" where
  "handle_departure xi s customer =
     (let customer' = customer\<lparr>departure_time := Some (current_time s)\<rparr>;
          s1 = s\<lparr>customers_served := customers_served s + 1\<rparr>
      in case waiting_time customer' of
           None \<Rightarrow> Inl TypeError
         | Some w \<Rightarrow>
             (let s2 = s1\<lparr>total_waiting_time := total_waiting_time s1 + w\<rparr> in
              case system_time customer' of
                None \<Rightarrow> Inl TypeError
              | Some st \<Rightarrow>
                  (let s3 = s2\<lparr>total_system_time := total_system_time s2 + st\<rparr> in
                   case waiting_queue s3 of
                     next_customer # rest \<Rightarrow>
                       start_service xi (s3\<lparr>waiting_queue := rest\<rparr>) next_customer
                   | [] \<Rightarrow> Inr (s3\<lparr>busy_servers := busy_servers s3 - 1\<rparr>))))"

text \<open>
  \<open>run\<close>. The statements before the loop are \<open>run_start\<close>; one pass through the body
  of the \<open>while\<close> loop is \<open>run_iter\<close>. The tests \<open>if max_time and ...\<close> and
  \<open>if max_customers and ...\<close> use Python truthiness: \<open>None\<close> and zero both count as
  false.
\<close>

definition run_start :: "(nat \<Rightarrow> real) \<Rightarrow> QueueSimulation \<Rightarrow> py_error + QueueSimulation" where
  "run_start xi s =
     (case generate_interarrival_time xi s of
        Inl err \<Rightarrow> Inl err
      | Inr (first_arrival_time, s1) \<Rightarrow>
          (let first_customer = \<lparr>cust_id = next_customer_id s1,
                 arrival_time = first_arrival_time,
                 service_start_time = None, departure_time = None\<rparr>;
               s2 = s1\<lparr>next_customer_id := next_customer_id s1 + 1\<rparr>
           in schedule_event s2 first_arrival_time Arrival first_customer))"

datatype step_result =
    is_Continue: Continue (step_state: QueueSimulation)
  | is_Break: Break (step_state: QueueSimulation)
  | is_Raise: Raise py_error

definition time_exceeded :: "real option \<Rightarrow> real \<Rightarrow> bool" where
  "time_exceeded max_time event_time =
     (case max_time of None \<Rightarrow> False | Some m \<Rightarrow> m \<noteq> 0 \<and> event_time > m)"

definition customers_reached :: "int option \<Rightarrow> int \<Rightarrow> bool" where
  "customers_reached max_customers served =
     (case max_customers of None \<Rightarrow> False | Some m \<Rightarrow> m \<noteq> 0 \<and> served \<ge> m)"

definition run_iter ::
  "(nat \<Rightarrow> real) \<Rightarrow> real option \<Rightarrow> int option \<Rightarrow> QueueSimulation \<Rightarrow> step_result" where
  "run_iter xi max_time max_customers s =
     (if event_queue s = [] then Break s
      else
        (case heappop (event_queue s) of
           Inl err \<Rightarrow> Raise err
         | Inr (ev, q) \<Rightarrow>
             (let s1 = s\<lparr>event_queue := q\<rparr>;
                  event_time = ev_time ev
              in if time_exceeded max_time event_time then Break s1
                 else if customers_reached max_customers (customers_served s1) then Break s1
                 else
                   (let time_delta = event_time - last_event_time s1;
                        s2 = update_statistics s1 time_delta;
                        s3 = s2\<lparr>current_time := event_time, last_event_time := event_time\<rparr>;
                        s4 = s3\<lparr>time_history := time_history s3 @ [current_time s3],
                               queue_length_history := queue_length_history s3 @
                                 [int (length (waiting_queue s3))],
                               customers_in_system_history := customers_in_system_history s3 @
                                 [int (length (waiting_queue s3)) + busy_servers s3]\<rparr>
                    in case (case ev_kind ev of
                               Arrival \<Rightarrow> handle_arrival xi s4 (ev_data ev)
                             | Departure \<Rightarrow> handle_departure xi s4 (ev_data ev)) of
                         Inl err \<Rightarrow> Raise err
                       | Inr s5 \<Rightarrow> Continue s5))))"

text \<open>
  The loop has no bound of its own, so it is run with fuel: \<open>Running s\<close> is the state
  after the given number of passes, the loop still going; \<open>Returned s\<close> is the state
  in which \<open>run\<close> returned; \<open>Raised e\<close> is an exception that left \<open>run\<close>.
\<close>

datatype run_result =
    is_Returned: Returned (result_state: QueueSimulation)
  | is_Raised: Raised (raised_error: py_error)
  | is_Running: Running (result_state: QueueSimulation)

fun run_loop ::
  "nat \<Rightarrow> (nat \<Rightarrow> real) \<Rightarrow> real option \<Rightarrow> int option \<Rightarrow> QueueSimulation \<Rightarrow> run_result" where
  "run_loop 0 xi max_time max_customers s = Running s"
| "run_loop (Suc n) xi max_time max_customers s =
     (case run_iter xi max_time max_customers s of
        Continue s' \<Rightarrow> run_loop n xi max_time max_customers s'
      | Break s' \<Rightarrow> Returned s'
      | Raise err \<Rightarrow> Raised err)"

definition run ::
  "nat \<Rightarrow> (nat \<Rightarrow> real) \<Rightarrow> real option \<Rightarrow> int option \<Rightarrow> QueueSimulation \<Rightarrow> run_result" where
  "run n xi max_time max_customers s =
     (case run_start xi s of
        Inl err \<Rightarrow> Raised err
      | Inr s0 \<Rightarrow> run_loop n xi max_time max_customers s0)"

section \<open>Statistics\<close>

text \<open>
  The dictionaries returned by \<open>get_statistics\<close> and \<open>get_theoretical_statistics\<close>
  are association lists in insertion order; their values are Python ints, floats or
  strings.
\<close>

datatype pyval = PInt int | PFloat real | PStr string

type_synonym pydict = "(string \<times> pyval) list"

definition py_div :: "real \<Rightarrow> real \<Rightarrow> py_error + real" where
  "py_div a b = (if b = 0 then Inl ZeroDivisionError else Inr (a / b))"

definition bind_err :: "py_error + 'a \<Rightarrow> ('a \<Rightarrow> py_error + 'b) \<Rightarrow> py_error + 'b" where
  "bind_err m f = (case m of Inl err \<Rightarrow> Inl err | Inr x \<Rightarrow> f x)"

definition get_statistics :: "QueueSimulation \<Rightarrow> py_error + pydict" where
  "get_statistics s =
     (if customers_served s = 0 then Inr
        [(''customers_arrived'', PInt (customers_arrived s)),
         (''customers_served'', PInt 0),
         (''avg_waiting_time'', PInt 0),
         (''avg_system_time'', PInt 0),
         (''avg_queue_length'', PInt 0),
         (''max_queue_length'', PInt 0),
         (''server_utilization'', PInt 0),
         (''current_queue_length'', PInt (int (length (waiting_queue s)))),
         (''busy_servers'', PInt (busy_servers s))]
      else
        bind_err (py_div (total_waiting_time s) (of_int (customers_served s))) (\<lambda>avg_waiting_time.
        bind_err (py_div (total_system_time s) (of_int (customers_served s))) (\<lambda>avg_system_time.
        bind_err (if current_time s > 0
                  then map_sum id PFloat (py_div (queue_length_sum s) (current_time s))
                  else Inr (PInt 0)) (\<lambda>avg_queue_length.
        bind_err (if current_time s > 0
                  then map_sum id PFloat
                    (bind_err (py_div (total_system_time s) (of_int (customers_served s))) (\<lambda>q.
                       py_div (of_int (customers_served s) * (q - avg_waiting_time))
                         (current_time s * of_int (num_servers s))))
                  else Inr (PInt 0)) (\<lambda>server_utilization.
        Inr
          [(''customers_arrived'', PInt (customers_arrived s)),
           (''customers_served'', PInt (customers_served s)),
           (''avg_waiting_time'', PFloat avg_waiting_time),
           (''avg_system_time'', PFloat avg_system_time),
           (''avg_queue_length'', avg_queue_length),
           (''max_queue_length'', PInt (max_queue_length s)),
           (''server_utilization'', server_utilization),
           (''current_queue_length'', PInt (int (length (waiting_queue s)))),
           (''busy_servers'', PInt (busy_servers s)),
           (''current_time'', PFloat (current_time s))])))))"





section \<open>Predicates used in the statements\<close>

text \<open>The order that a successful \<open><\<close> on events respects: time first, then kind.\<close>

definition ev_le :: "event \<Rightarrow> event \<Rightarrow> bool" where
  "ev_le a b \<longleftrightarrow>
     ev_time a < ev_time b \<or> (ev_time a = ev_time b \<and> \<not> kind_lt (ev_kind b) (ev_kind a))"

text \<open>The heap invariant of heapq: no item is smaller than its parent.\<close>

definition heap_ok :: "event list \<Rightarrow> bool" where
  "heap_ok h \<longleftrightarrow> (\<forall>i<length h. 0 < i \<longrightarrow> ev_le (h ! ((i - 1) div 2)) (h ! i))"

text \<open>
  Loop invariants of \<open>_siftdown\<close> (the item at \<open>pos\<close> may be smaller than its parent)
  and of \<open>_siftup\<close> (the item at \<open>pos\<close> may be larger than its children).
\<close>

definition sd_inv :: "event list \<Rightarrow> nat \<Rightarrow> bool" where
  "sd_inv g pos \<longleftrightarrow>
     (\<forall>i<length g. 0 < i \<longrightarrow> i \<noteq> pos \<longrightarrow> ev_le (g ! ((i - 1) div 2)) (g ! i)) \<and>
     (0 < pos \<longrightarrow> (\<forall>i<length g. 0 < i \<longrightarrow> (i - 1) div 2 = pos \<longrightarrow>
         ev_le (g ! ((pos - 1) div 2)) (g ! i)))"

definition su_inv :: "event list \<Rightarrow> nat \<Rightarrow> bool" where
  "su_inv h pos \<longleftrightarrow>
     (\<forall>i<length h. 0 < i \<longrightarrow> (i - 1) div 2 \<noteq> pos \<longrightarrow> ev_le (h ! ((i - 1) div 2)) (h ! i)) \<and>
     (0 < pos \<longrightarrow> (\<forall>i<length h. 0 < i \<longrightarrow> (i - 1) div 2 = pos \<longrightarrow>
         ev_le (h ! ((pos - 1) div 2)) (h ! i)))"

text \<open>The child that one pass of the loop of \<open>_siftup\<close> moves up.\<close>

definition su_pick :: "event list \<Rightarrow> nat \<Rightarrow> nat \<Rightarrow> py_error + nat" where
  "su_pick heap endpos pos =
     (if 2 * pos + 2 < endpos
      then (case event_lt (heap ! (2 * pos + 1)) (heap ! (2 * pos + 2)) of
              Inl err \<Rightarrow> Inl err
            | Inr b \<Rightarrow> Inr (if b then 2 * pos + 1 else 2 * pos + 2))
      else Inr (2 * pos + 1))"

definition arrivals_pending :: "event list \<Rightarrow> nat" where
  "arrivals_pending q = length (filter (\<lambda>e. ev_kind e = Arrival) q)"

definition departures_pending :: "event list \<Rightarrow> nat" where
  "departures_pending q = length (filter (\<lambda>e. ev_kind e = Departure) q)"

definition has_key :: "pydict \<Rightarrow> string \<Rightarrow> bool" where
  "has_key d k \<longleftrightarrow> map_of d k \<noteq> None"

text \<open>
  The state in which the handler of a popped event \<open>ev\<close> starts: the event is off
  the queue, the statistics are updated, the clock is advanced and the history is
  extended.
\<close>

definition pre_dispatch :: "QueueSimulation \<Rightarrow> event \<Rightarrow> event list \<Rightarrow> QueueSimulation" where
  "pre_dispatch s ev q =
     s\<lparr>event_queue := q,
       queue_length_sum := queue_length_sum s +
         of_int (int (length (waiting_queue s))) * (ev_time ev - last_event_time s),
       max_queue_length := max (max_queue_length s) (int (length (waiting_queue s))),
       current_time := ev_time ev,
       last_event_time := ev_time ev,
       time_history := time_history s @ [ev_time ev],
       queue_length_history := queue_length_history s @ [int (length (waiting_queue s))],
       customers_in_system_history := customers_in_system_history s @
         [int (length (waiting_queue s)) + busy_servers s]\<rparr>"

text \<open>
  Invariants of the event loop: every pending departure occupies a server; every
  pending event lies in the future; the times recorded since the start of the run are
  sorted.
\<close>

definition busy_inv :: "QueueSimulation \<Rightarrow> bool" where
  "busy_inv s \<longleftrightarrow>
     int (departures_pending (event_queue s)) \<le> busy_servers s \<and> busy_servers s \<le> num_servers s"

definition qinv :: "(nat \<Rightarrow> real) \<Rightarrow> QueueSimulation \<Rightarrow> bool" where
  "qinv xi s \<longleftrightarrow>
     heap_ok (event_queue s) \<and> 0 < arrival_rate s \<and> 0 < service_rate s \<and> (\<forall>n. 0 \<le> xi n) \<and>
     (\<forall>e\<in>set (event_queue s). current_time s \<le> ev_time e)"

definition tinv :: "(nat \<Rightarrow> real) \<Rightarrow> real list \<Rightarrow> QueueSimulation \<Rightarrow> bool" where
  "tinv xi th0 s \<longleftrightarrow>
     heap_ok (event_queue s) \<and> 0 < arrival_rate s \<and> 0 < service_rate s \<and> (\<forall>n. 0 \<le> xi n) \<and>
     (\<exists>new. time_history s = th0 @ new \<and> sorted new \<and>
        (new \<noteq> [] \<longrightarrow> current_time s = last new \<and>
           (\<forall>e\<in>set (event_queue s). current_time s \<le> ev_time e)))"

section \<open>Example inputs\<close>

text \<open>A random source whose every draw is 1.\<close>

definition unit_draws :: "nat \<Rightarrow> real" where
  "unit_draws n = 1"

text \<open>
  A random source whose second draw, the first service time, is 5/2 and whose other
  draws are 1; with one server the second and third customer then wait. The state
  \<open>queued_state\<close> is reached after two events of such a run.
\<close>

definition late_service_draws :: "nat \<Rightarrow> real" where
  "late_service_draws n = (if n = 1 then 5 / 2 else 1)"


definition queued_state :: QueueSimulation where
  "queued_state = result_state (run 2 late_service_draws None None (init_state 0 1 1 1))"

section \<open>The closed forms of the specification\<close>





text \<open>
  Two customers, and a random source under which, with two servers and unit rates,
  the first two customers finish service at the same time 3.
\<close>

definition customer_a :: Customer where
  "customer_a = \<lparr>cust_id = 0, arrival_time = 0, service_start_time = Some 0, departure_time = None\<rparr>"

definition customer_b :: Customer where
  "customer_b = \<lparr>cust_id = 1, arrival_time = 1, service_start_time = None, departure_time = None\<rparr>"

definition colliding_draws :: "nat \<Rightarrow> real" where
  "colliding_draws n = (if n = 1 then 2 else 1)"

text \<open>The event queues that the engine can build: from the empty list by pushes and pops.\<close>

inductive heap_built :: "event list \<Rightarrow> bool" where
  built_empty: "heap_built []"
| built_push: "heap_built h \<Longrightarrow> heappush h e = Inr h' \<Longrightarrow> heap_built h'"
| built_pop: "heap_built h \<Longrightarrow> heappop h = Inr (e, h') \<Longrightarrow> heap_built h'"

text \<open>
  The states in which two first runs on a new instance with one server leave it:
  \<open>after_short_run\<close>, stopped by \<open>max_time = 1/2\<close> on the first arrival, and
  \<open>after_cut_run\<close>, stopped by \<open>max_time = 16/5\<close> on the first departure.
\<close>

definition after_short_run :: QueueSimulation where
  "after_short_run = result_state (run 1 unit_draws (Some (1 / 2)) None (init_state 0 1 1 1))"

definition after_cut_run :: QueueSimulation where
  "after_cut_run =
     result_state (run 4 late_service_draws (Some (16 / 5)) None (init_state 0 1 1 1))"

section \<open>Correctness of the heap operations\<close>

declare siftdown_loop.simps [simp del] siftup_loop.simps [simp del]

lemma ev_le_refl: "ev_le a a"
  by (cases "ev_kind a") (simp_all add: ev_le_def)

lemma ev_le_trans: "ev_le a b \<Longrightarrow> ev_le b c \<Longrightarrow> ev_le a c"
  unfolding ev_le_def
  by (cases "ev_kind a"; cases "ev_kind b"; cases "ev_kind c") auto

lemma event_lt_True: "event_lt a b = Inr True \<Longrightarrow> ev_le a b"
  unfolding ev_le_def event_lt_def
  by (cases "ev_kind a"; cases "ev_kind b") (auto split: if_splits)

lemma event_lt_False: "event_lt a b = Inr False \<Longrightarrow> ev_le b a"
  unfolding ev_le_def event_lt_def
  by (cases "ev_kind a"; cases "ev_kind b") (auto split: if_splits)

lemma mset_swap_update:
  "i < length h \<Longrightarrow> j < length h \<Longrightarrow> i \<noteq> j \<Longrightarrow>
   mset (h[i := h ! j, j := x]) = mset (h[i := x])"
  by (simp add: mset_update nth_list_update)

lemma sd_inv_step:
  assumes inv: "sd_inv (h[pos := x]) pos" and pos: "pos < length h" "0 < pos"
    and le: "ev_le x (h ! ((pos - 1) div 2))"
  shows "sd_inv (h[pos := h ! ((pos - 1) div 2), (pos - 1) div 2 := x]) ((pos - 1) div 2)"
proof -
  let ?pp = "(pos - 1) div 2"
  let ?g = "h[pos := x]"
  let ?g' = "h[pos := h ! ?pp, ?pp := x]"
  from pos have pp: "?pp < pos" by auto
  from inv have A: "\<forall>i<length ?g. 0 < i \<longrightarrow> i \<noteq> pos \<longrightarrow> ev_le (?g ! ((i - 1) div 2)) (?g ! i)"
    unfolding sd_inv_def by blast
  from inv pos have B: "\<forall>i<length ?g. 0 < i \<longrightarrow> (i - 1) div 2 = pos \<longrightarrow>
         ev_le (?g ! ((pos - 1) div 2)) (?g ! i)"
    unfolding sd_inv_def by blast
  have edge: "ev_le (h ! ((i - 1) div 2)) (h ! i)"
    if "i < length h" "0 < i" "i \<noteq> pos" "(i - 1) div 2 \<noteq> pos" for i
  proof -
    from A[rule_format, of i] that have "ev_le (?g ! ((i - 1) div 2)) (?g ! i)"
      by simp
    with that show ?thesis by simp
  qed
  have gp: "ev_le (h ! ?pp) (h ! i)"
    if "i < length h" "0 < i" "(i - 1) div 2 = pos" for i
  proof -
    from that have ne: "i \<noteq> pos" "i \<noteq> ?pp" using pp by auto
    from B[rule_format, of i] that have "ev_le (?g ! ?pp) (?g ! i)" by simp
    with ne pp show ?thesis by simp
  qed
  show ?thesis
    unfolding sd_inv_def
  proof (intro conjI allI impI)
    fix i assume i: "i < length ?g'" "0 < i" "i \<noteq> ?pp"
    show "ev_le (?g' ! ((i - 1) div 2)) (?g' ! i)"
    proof (cases "i = pos")
      case True
      with pos pp le show ?thesis by simp
    next
      case ipos: False
      show ?thesis
      proof (cases "(i - 1) div 2 = pos")
        case True
        with i pos pp ipos gp[of i] show ?thesis by simp
      next
        case npos: False
        show ?thesis
        proof (cases "(i - 1) div 2 = ?pp")
          case True
          have "ev_le (h ! ((i - 1) div 2)) (h ! i)" using edge[of i] i ipos npos by simp
          with True have "ev_le (h ! ?pp) (h ! i)" by simp
          with le have "ev_le x (h ! i)" by (rule ev_le_trans)
          with True i ipos pos pp show ?thesis by simp
        next
          case False
          have "ev_le (h ! ((i - 1) div 2)) (h ! i)" using edge[of i] i ipos npos by simp
          with False npos i ipos show ?thesis by simp
        qed
      qed
    qed
  next
    fix i assume ppos: "0 < ?pp" and i: "i < length ?g'" "0 < i" "(i - 1) div 2 = ?pp"
    have ppp: "(?pp - 1) div 2 < ?pp" using ppos by auto
    have e1: "ev_le (h ! ((?pp - 1) div 2)) (h ! ?pp)"
      using edge[of ?pp] ppos pp pos ppp by simp
    have ne: "i \<noteq> ?pp" using i by auto
    show "ev_le (?g' ! ((?pp - 1) div 2)) (?g' ! i)"
    proof (cases "i = pos")
      case True
      with e1 pos pp ppp show ?thesis by simp
    next
      case False
      have "(i - 1) div 2 \<noteq> pos" using i pp by simp
      then have "ev_le (h ! ((i - 1) div 2)) (h ! i)" using edge[of i] i False by simp
      with i have "ev_le (h ! ?pp) (h ! i)" by simp
      with e1 have "ev_le (h ! ((?pp - 1) div 2)) (h ! i)" by (rule ev_le_trans)
      with False ne ppp pp show ?thesis by simp
    qed
  qed
qed

lemma sd_inv_done:
  assumes inv: "sd_inv g pos" and "pos < length g"
    and "pos = 0 \<or> ev_le (g ! ((pos - 1) div 2)) (g ! pos)"
  shows "heap_ok g"
  unfolding heap_ok_def
proof (intro allI impI)
  fix i assume "i < length g" "0 < i"
  with assms show "ev_le (g ! ((i - 1) div 2)) (g ! i)"
    unfolding sd_inv_def by (cases "i = pos") auto
qed

lemma siftdown_loop_ok:
  "pos < length h \<Longrightarrow> sd_inv (h[pos := x]) pos \<Longrightarrow> siftdown_loop h 0 pos x = Inr h' \<Longrightarrow>
   heap_ok h' \<and> mset h' = mset (h[pos := x])"
proof (induction h "0::nat" pos x arbitrary: h' rule: siftdown_loop.induct)
  case (1 heap pos newitem)
  let ?pp = "(pos - 1) div 2"
  show ?case
  proof (cases "pos > 0")
    case False
    with "1.prems" have "h' = heap[pos := newitem]"
      by (subst (asm) siftdown_loop.simps) simp
    with "1.prems" False show ?thesis
      using sd_inv_done[of "heap[pos := newitem]" pos] by simp
  next
    case True
    then have pp: "?pp < pos" by auto
    show ?thesis
    proof (cases "event_lt newitem (heap ! ?pp)")
      case (Inl e)
      with True "1.prems" show ?thesis
        by (subst (asm) siftdown_loop.simps) (simp add: Let_def)
    next
      case (Inr b)
      show ?thesis
      proof (cases b)
        case False
        with True Inr "1.prems" have h': "h' = heap[pos := newitem]"
          by (subst (asm) siftdown_loop.simps) (simp add: Let_def)
        from False Inr have "ev_le (heap ! ?pp) newitem" by (simp add: event_lt_False)
        with "1.prems" pp have "heap_ok (heap[pos := newitem])"
          using sd_inv_done[of "heap[pos := newitem]" pos] by simp
        with h' show ?thesis by simp
      next
        case b: True
        with True Inr "1.prems" have rec: "siftdown_loop (heap[pos := heap ! ?pp]) 0 ?pp newitem = Inr h'"
          by (subst (asm) siftdown_loop.simps) (simp add: Let_def)
        from b Inr have le: "ev_le newitem (heap ! ?pp)" by (simp add: event_lt_True)
        have inv': "sd_inv (heap[pos := heap ! ?pp, ?pp := newitem]) ?pp"
          using sd_inv_step[OF "1.prems"(2) "1.prems"(1) True le] .
        have "heap_ok h' \<and> mset h' = mset (heap[pos := heap ! ?pp, ?pp := newitem])"
          using "1.hyps"[OF True refl refl Inr b _ _ rec] inv' pp "1.prems"(1) by simp
        moreover have "mset (heap[pos := heap ! ?pp, ?pp := newitem]) = mset (heap[pos := newitem])"
          using mset_swap_update[of pos heap ?pp newitem] pp "1.prems"(1) by simp
        ultimately show ?thesis by simp
      qed
    qed
  qed
qed

lemma su_inv_step:
  assumes inv: "su_inv h pos" and c: "c < length h" "0 < c" "(c - 1) div 2 = pos"
    and sib: "\<And>i. i < length h \<Longrightarrow> 0 < i \<Longrightarrow> (i - 1) div 2 = pos \<Longrightarrow> ev_le (h ! c) (h ! i)"
  shows "su_inv (h[pos := h ! c]) c"
proof -
  let ?h1 = "h[pos := h ! c]"
  from c have pc: "pos < c" by auto
  from inv have A: "\<forall>i<length h. 0 < i \<longrightarrow> (i - 1) div 2 \<noteq> pos \<longrightarrow> ev_le (h ! ((i - 1) div 2)) (h ! i)"
    unfolding su_inv_def by blast
  from inv have B: "0 < pos \<longrightarrow> (\<forall>i<length h. 0 < i \<longrightarrow> (i - 1) div 2 = pos \<longrightarrow>
         ev_le (h ! ((pos - 1) div 2)) (h ! i))"
    unfolding su_inv_def by blast
  show ?thesis
    unfolding su_inv_def
  proof (intro conjI allI impI)
    fix i assume i: "i < length ?h1" "0 < i" "(i - 1) div 2 \<noteq> c"
    show "ev_le (?h1 ! ((i - 1) div 2)) (?h1 ! i)"
    proof (cases "(i - 1) div 2 = pos")
      case True
      then have "i \<noteq> pos" using i by auto
      with True i c pc sib[of i] show ?thesis by simp
    next
      case False
      show ?thesis
      proof (cases "i = pos")
        case True
        then have "(pos - 1) div 2 < pos" using i by auto
        with True i B c pc show ?thesis by simp
      next
        case ne: False
        with False i A[rule_format, of i] show ?thesis by simp
      qed
    qed
  next
    fix i assume i: "i < length ?h1" "0 < i" "(i - 1) div 2 = c"
    then have "i \<noteq> pos" using pc by auto
    moreover have "ev_le (h ! ((i - 1) div 2)) (h ! i)"
      using A[rule_format, of i] i pc by simp
    ultimately show "ev_le (?h1 ! ((c - 1) div 2)) (?h1 ! i)"
      using i c pc by simp
  qed
qed

lemma su_inv_leaf:
  assumes inv: "su_inv h pos" and pos: "pos < length h" and leaf: "length h \<le> 2 * pos + 1"
  shows "sd_inv (h[pos := x]) pos"
  unfolding sd_inv_def
proof (intro conjI allI impI)
  fix i assume i: "i < length (h[pos := x])" "0 < i" "i \<noteq> pos"
  from i leaf have np: "(i - 1) div 2 \<noteq> pos" by auto
  from inv i np have "ev_le (h ! ((i - 1) div 2)) (h ! i)"
    unfolding su_inv_def by simp
  with np i show "ev_le (h[pos := x] ! ((i - 1) div 2)) (h[pos := x] ! i)" by simp
next
  fix i assume i: "i < length (h[pos := x])" "0 < i" "(i - 1) div 2 = pos"
  with leaf have False by auto
  then show "ev_le (h[pos := x] ! ((pos - 1) div 2)) (h[pos := x] ! i)" ..
qed

lemma siftup_loop_unfold:
  "siftup_loop heap endpos pos =
     (if 2 * pos + 1 < endpos then
        (case su_pick heap endpos pos of
           Inl err \<Rightarrow> Inl err
         | Inr c \<Rightarrow> siftup_loop (heap[pos := heap ! c]) endpos c)
      else Inr (heap, pos))"
  by (subst siftup_loop.simps) (auto simp: su_pick_def Let_def split: sum.splits)

lemma su_pick_child:
  assumes "su_pick h (length h) pos = Inr c" "2 * pos + 1 < length h"
  shows "c < length h" "0 < c" "(c - 1) div 2 = pos"
  using assms by (auto simp: su_pick_def split: if_splits sum.splits)

lemma su_pick_least:
  assumes p: "su_pick h (length h) pos = Inr c" and l: "2 * pos + 1 < length h"
    and i: "i < length h" "0 < i" "(i - 1) div 2 = pos"
  shows "ev_le (h ! c) (h ! i)"
proof -
  from i have "i = 2 * pos + 1 \<or> i = 2 * pos + 2" by auto
  then show ?thesis
  proof
    assume il: "i = 2 * pos + 1"
    show ?thesis
    proof (cases "c = i")
      case True
      then show ?thesis by (simp add: ev_le_refl)
    next
      case False
      with p il have "event_lt (h ! (2 * pos + 1)) (h ! (2 * pos + 2)) = Inr False" "c = 2 * pos + 2"
        by (auto simp: su_pick_def split: if_splits sum.splits)
      with il show ?thesis using event_lt_False by simp
    qed
  next
    assume ir: "i = 2 * pos + 2"
    show ?thesis
    proof (cases "c = i")
      case True
      then show ?thesis by (simp add: ev_le_refl)
    next
      case False
      with p ir i have "event_lt (h ! (2 * pos + 1)) (h ! (2 * pos + 2)) = Inr True" "c = 2 * pos + 1"
        by (auto simp: su_pick_def split: if_splits sum.splits)
      with ir show ?thesis using event_lt_True by simp
    qed
  qed
qed

lemma siftup_loop_ok:
  "su_inv h pos \<Longrightarrow> pos < length h \<Longrightarrow> siftup_loop h (length h) pos = Inr (h', pos') \<Longrightarrow>
   length h' = length h \<and> pos' < length h \<and>
   sd_inv (h'[pos' := x]) pos' \<and> mset (h'[pos' := x]) = mset (h[pos := x])"
proof (induction "length h - pos" arbitrary: h pos rule: less_induct)
  case less
  show ?case
  proof (cases "2 * pos + 1 < length h")
    case False
    with less.prems have "h' = h" "pos' = pos"
      by (simp_all add: siftup_loop_unfold[of h "length h" pos])
    with less.prems False show ?thesis
      using su_inv_leaf[of h pos x] by simp
  next
    case l: True
    show ?thesis
    proof (cases "su_pick h (length h) pos")
      case (Inl e)
      with l less.prems show ?thesis
        by (simp add: siftup_loop_unfold[of h "length h" pos])
    next
      case (Inr c)
      have rec: "siftup_loop (h[pos := h ! c]) (length (h[pos := h ! c])) c = Inr (h', pos')"
        using l less.prems(3) Inr by (simp add: siftup_loop_unfold[of h "length h" pos])
      note c = su_pick_child[OF Inr l]
      have inv': "su_inv (h[pos := h ! c]) c"
        using su_inv_step[OF less.prems(1) c] su_pick_least[OF Inr l] by blast
      have pc: "pos < c" using c by auto
      have "length h' = length (h[pos := h ! c]) \<and> pos' < length (h[pos := h ! c]) \<and>
         sd_inv (h'[pos' := x]) pos' \<and> mset (h'[pos' := x]) = mset (h[pos := h ! c, c := x])"
        using less.hyps[of "h[pos := h ! c]" c, OF _ inv' _ rec] c pc by simp
      moreover have "mset (h[pos := h ! c, c := x]) = mset (h[pos := x])"
        using mset_swap_update[of pos h c x] c pc by simp
      ultimately show ?thesis by simp
    qed
  qed
qed

lemma heap_ok_root_le:
  "heap_ok h \<Longrightarrow> i < length h \<Longrightarrow> ev_le (h ! 0) (h ! i)"
proof (induction i rule: less_induct)
  case (less i)
  show ?case
  proof (cases "i = 0")
    case True
    then show ?thesis by (simp add: ev_le_refl)
  next
    case False
    then have p: "(i - 1) div 2 < i" by auto
    with less.prems have "ev_le (h ! 0) (h ! ((i - 1) div 2))"
      using less.IH[of "(i - 1) div 2"] by simp
    moreover from less.prems False have "ev_le (h ! ((i - 1) div 2)) (h ! i)"
      unfolding heap_ok_def by simp
    ultimately show ?thesis by (rule ev_le_trans)
  qed
qed

lemma heap_ok_butlast: "heap_ok h \<Longrightarrow> heap_ok (butlast h)"
  unfolding heap_ok_def
  by (auto simp: nth_butlast)

lemma heappush_ok:
  assumes "heap_ok h" "heappush h e = Inr h'"
  shows "heap_ok h' \<and> mset h' = add_mset e (mset h)"
proof -
  have inv: "sd_inv ((h @ [e])[length h := e]) (length h)"
    unfolding sd_inv_def
  proof (intro conjI allI impI)
    fix i assume i: "i < length ((h @ [e])[length h := e])" "0 < i" "i \<noteq> length h"
    then have il: "i < length h" by simp
    then have "(i - 1) div 2 < length h" by auto
    with il i assms(1) show "ev_le ((h @ [e])[length h := e] ! ((i - 1) div 2)) ((h @ [e])[length h := e] ! i)"
      unfolding heap_ok_def by (simp add: nth_append)
  next
    fix i assume "i < length ((h @ [e])[length h := e])" "0 < i" "(i - 1) div 2 = length h"
    then have False by auto
    then show "ev_le ((h @ [e])[length h := e] ! ((length h - 1) div 2)) ((h @ [e])[length h := e] ! i)" ..
  qed
  from assms(2) have "siftdown_loop (h @ [e]) 0 (length h) e = Inr h'"
    by (simp add: heappush_def siftdown_def)
  from siftdown_loop_ok[OF _ inv this] show ?thesis by simp
qed

lemma heappop_ok:
  assumes ok: "heap_ok h" and pop: "heappop h = Inr (e, h')"
  shows "heap_ok h' \<and> mset h = add_mset e (mset h') \<and> (\<forall>x\<in>set h'. ev_le e x)"
proof -
  from pop have ne: "h \<noteq> []" by (auto simp: heappop_def)
  show ?thesis
  proof (cases "butlast h = []")
    case True
    with ne pop have "e = last h" "h' = []" by (auto simp: heappop_def Let_def)
    moreover from True ne have "h = [last h]"
      by (metis append_butlast_last_id append_Nil)
    ultimately show ?thesis by (simp add: heap_ok_def)
  next
    case False
    let ?rest = "butlast h" and ?l = "last h"
    let ?a = "?rest[0 := ?l]"
    from False have len: "0 < length ?rest" by (cases "butlast h") simp_all
    from False ne pop have e: "e = ?rest ! 0" and su: "siftup ?a 0 = Inr h'"
      by (auto simp: heappop_def Let_def split: sum.splits)
    from su len obtain h1 p1 where loop: "siftup_loop ?a (length ?a) 0 = Inr (h1, p1)"
      and sd: "siftdown (h1[p1 := ?l]) 0 p1 = Inr h'"
      by (auto simp: siftup_def Let_def split: sum.splits)
    have rest_ok: "heap_ok ?rest" using ok by (rule heap_ok_butlast)
    have inv: "su_inv ?a 0"
      using rest_ok unfolding su_inv_def heap_ok_def by (auto simp: nth_list_update)
    from siftup_loop_ok[OF inv _ loop, of ?l] len
    have r: "length h1 = length ?a" "p1 < length ?a" "sd_inv (h1[p1 := ?l]) p1"
      "mset (h1[p1 := ?l]) = mset ?a" by simp_all
    from sd r have "siftdown_loop (h1[p1 := ?l]) 0 p1 ?l = Inr h'"
      by (simp add: siftdown_def)
    from siftdown_loop_ok[of p1 "h1[p1 := ?l]" ?l h'] r this
    have res: "heap_ok h'" "mset h' = mset ?a" by simp_all
    have "mset h = add_mset ?l (mset ?rest)"
      using ne by (metis append_butlast_last_id mset_append add_mset_add_single mset.simps(1,2) union_mset_add_mset_right add.right_neutral)
    moreover have "mset ?a = add_mset ?l (mset ?rest - {#?rest ! 0#})"
      using len by (simp add: mset_update)
    moreover have "?rest ! 0 \<in># mset ?rest" using len by simp
    ultimately have ms: "mset h = add_mset e (mset h')"
      using res e by simp
    have "ev_le e x" if "x \<in> set h'" for x
    proof -
      from that ms have "x \<in> set h" by (metis insert_iff set_mset_add_mset_insert set_mset_mset)
      then obtain i where "i < length h" "h ! i = x" by (auto simp: in_set_conv_nth)
      moreover have "e = h ! 0" using e len by (simp add: nth_butlast)
      ultimately show ?thesis using heap_ok_root_le[OF ok] by auto
    qed
    with res ms show ?thesis by simp
  qed
qed

section \<open>Multisets of pending events\<close>

lemma siftdown_loop_mset:
  "pos < length h \<Longrightarrow> siftdown_loop h sp pos x = Inr h' \<Longrightarrow> mset h' = mset (h[pos := x])"
proof (induction h sp pos x arbitrary: h' rule: siftdown_loop.induct)
  case (1 heap startpos pos newitem)
  let ?pp = "(pos - 1) div 2"
  show ?case
  proof (cases "pos > startpos")
    case False
    with "1.prems" show ?thesis
      by (subst (asm) siftdown_loop.simps) simp
  next
    case True
    then have pp: "?pp < pos" by auto
    show ?thesis
    proof (cases "event_lt newitem (heap ! ?pp)")
      case (Inl e)
      with True "1.prems" show ?thesis
        by (subst (asm) siftdown_loop.simps) (simp add: Let_def)
    next
      case (Inr b)
      show ?thesis
      proof (cases b)
        case False
        with True Inr "1.prems" show ?thesis
          by (subst (asm) siftdown_loop.simps) (simp add: Let_def)
      next
        case b: True
        with True Inr "1.prems" have rec: "siftdown_loop (heap[pos := heap ! ?pp]) startpos ?pp newitem = Inr h'"
          by (subst (asm) siftdown_loop.simps) (simp add: Let_def)
        have "mset h' = mset (heap[pos := heap ! ?pp, ?pp := newitem])"
          using "1.IH"[OF True refl refl Inr b _ rec] pp "1.prems"(1) by simp
        also have "\<dots> = mset (heap[pos := newitem])"
          using mset_swap_update[of pos heap ?pp newitem] pp "1.prems"(1) by simp
        finally show ?thesis .
      qed
    qed
  qed
qed

lemma siftup_loop_mset:
  "pos < length h \<Longrightarrow> siftup_loop h (length h) pos = Inr (h', pos') \<Longrightarrow>
   length h' = length h \<and> pos' < length h \<and> mset (h'[pos' := x]) = mset (h[pos := x])"
proof (induction "length h - pos" arbitrary: h pos rule: less_induct)
  case less
  show ?case
  proof (cases "2 * pos + 1 < length h")
    case False
    with less.prems show ?thesis
      by (simp add: siftup_loop_unfold[of h "length h" pos])
  next
    case l: True
    show ?thesis
    proof (cases "su_pick h (length h) pos")
      case (Inl e)
      with l less.prems show ?thesis
        by (simp add: siftup_loop_unfold[of h "length h" pos])
    next
      case (Inr c)
      have rec: "siftup_loop (h[pos := h ! c]) (length (h[pos := h ! c])) c = Inr (h', pos')"
        using l less.prems(2) Inr by (simp add: siftup_loop_unfold[of h "length h" pos])
      note c = su_pick_child[OF Inr l]
      have pc: "pos < c" using c by auto
      have "length h' = length (h[pos := h ! c]) \<and> pos' < length (h[pos := h ! c]) \<and>
         mset (h'[pos' := x]) = mset (h[pos := h ! c, c := x])"
        using less.hyps[of "h[pos := h ! c]" c, OF _ _ rec] c pc by simp
      moreover have "mset (h[pos := h ! c, c := x]) = mset (h[pos := x])"
        using mset_swap_update[of pos h c x] c pc by simp
      ultimately show ?thesis by simp
    qed
  qed
qed

lemma heappush_mset:
  assumes "heappush h e = Inr h'"
  shows "mset h' = add_mset e (mset h)"
proof -
  from assms have "siftdown_loop (h @ [e]) 0 (length h) e = Inr h'"
    by (simp add: heappush_def siftdown_def)
  from siftdown_loop_mset[OF _ this] show ?thesis by simp
qed

lemma heappop_mset:
  assumes pop: "heappop h = Inr (e, h')"
  shows "mset h = add_mset e (mset h')"
proof -
  from pop have ne: "h \<noteq> []" by (auto simp: heappop_def)
  have hl: "mset h = add_mset (last h) (mset (butlast h))"
    using ne by (metis append_butlast_last_id mset_append add_mset_add_single mset.simps(1,2) union_mset_add_mset_right add.right_neutral)
  show ?thesis
  proof (cases "butlast h = []")
    case True
    with ne pop have "e = last h" "h' = []" by (auto simp: heappop_def Let_def)
    with hl True show ?thesis by simp
  next
    case False
    let ?rest = "butlast h" and ?l = "last h"
    let ?a = "?rest[0 := ?l]"
    from False have len: "0 < length ?rest" by (cases "butlast h") simp_all
    from False ne pop have e: "e = ?rest ! 0" and su: "siftup ?a 0 = Inr h'"
      by (auto simp: heappop_def Let_def split: sum.splits)
    from su len obtain h1 p1 where loop: "siftup_loop ?a (length ?a) 0 = Inr (h1, p1)"
      and sd: "siftdown (h1[p1 := ?l]) 0 p1 = Inr h'"
      by (auto simp: siftup_def Let_def split: sum.splits)
    from siftup_loop_mset[OF _ loop, of ?l] len
    have r: "length h1 = length ?a" "p1 < length ?a" "mset (h1[p1 := ?l]) = mset ?a" by simp_all
    from sd r have "siftdown_loop (h1[p1 := ?l]) 0 p1 ?l = Inr h'"
      by (simp add: siftdown_def)
    from siftdown_loop_mset[of p1 "h1[p1 := ?l]" 0 ?l h'] r this
    have res: "mset h' = mset ?a" by simp
    moreover have "mset ?a = add_mset ?l (mset ?rest - {#?rest ! 0#})"
      using len by (simp add: mset_update)
    moreover have "?rest ! 0 \<in># mset ?rest" using len by simp
    ultimately show ?thesis
      using hl e by simp
  qed
qed

lemma arrivals_pending_mset: "arrivals_pending q = size (filter_mset (\<lambda>e. ev_kind e = Arrival) (mset q))"
  unfolding arrivals_pending_def by (metis mset_filter size_mset)

lemma departures_pending_mset: "departures_pending q = size (filter_mset (\<lambda>e. ev_kind e = Departure) (mset q))"
  unfolding departures_pending_def by (metis mset_filter size_mset)

lemma heappush_arrivals:
  "heappush q e = Inr q' \<Longrightarrow>
   arrivals_pending q' = arrivals_pending q + (if ev_kind e = Arrival then 1 else 0)"
  by (drule heappush_mset) (simp add: arrivals_pending_mset)

lemma heappush_departures:
  "heappush q e = Inr q' \<Longrightarrow>
   departures_pending q' = departures_pending q + (if ev_kind e = Departure then 1 else 0)"
  by (drule heappush_mset) (simp add: departures_pending_mset)

lemma heappop_arrivals:
  "heappop q = Inr (e, q') \<Longrightarrow>
   arrivals_pending q = arrivals_pending q' + (if ev_kind e = Arrival then 1 else 0)"
  by (drule heappop_mset) (simp add: arrivals_pending_mset)

lemma heappop_departures:
  "heappop q = Inr (e, q') \<Longrightarrow>
   departures_pending q = departures_pending q' + (if ev_kind e = Departure then 1 else 0)"
  by (drule heappop_mset) (simp add: departures_pending_mset)

lemma run_loop_Running_induct:
  assumes "run_loop n xi mt mc s = Running s'" and "P s"
    and "\<And>s s'. P s \<Longrightarrow> run_iter xi mt mc s = Continue s' \<Longrightarrow> P s'"
  shows "P s'"
  using assms(1,2)
proof (induction n arbitrary: s)
  case 0
  then show ?case by simp
next
  case (Suc n)
  then show ?case
    by (auto split: step_result.splits intro: assms(3))
qed

lemma run_loop_Returned_induct:
  assumes "run_loop n xi mt mc s = Returned s'" and "P s"
    and "\<And>s s'. P s \<Longrightarrow> run_iter xi mt mc s = Continue s' \<Longrightarrow> P s'"
    and "\<And>s s'. P s \<Longrightarrow> run_iter xi mt mc s = Break s' \<Longrightarrow> Q s'"
  shows "Q s'"
  using assms(1,2)
proof (induction n arbitrary: s)
  case 0
  then show ?case by simp
next
  case (Suc n)
  then show ?case
    by (auto split: step_result.splits intro: assms(3,4))
qed

section \<open>Effects of the handlers and of one pass of the loop\<close>

lemma schedule_event_Inr:
  "schedule_event s t k d = Inr s' \<Longrightarrow>
   \<exists>q. heappush (event_queue s) (t, k, d) = Inr q \<and> s' = s\<lparr>event_queue := q\<rparr>"
  by (auto simp: schedule_event_def split: sum.splits)

lemma start_service_Inr:
  "start_service xi s cust = Inr s' \<Longrightarrow>
   \<exists>q. service_rate s \<noteq> 0 \<and>
     heappush (event_queue s) (current_time s + xi (rng_drawn s) / service_rate s, Departure,
        cust\<lparr>service_start_time := Some (current_time s)\<rparr>) = Inr q \<and>
     s' = s\<lparr>rng_drawn := Suc (rng_drawn s), event_queue := q\<rparr>"
  by (auto simp: start_service_def generate_service_time_def expovariate_def schedule_event_def Let_def
      split: sum.splits prod.splits if_splits)

lemma handle_arrival_Inr:
  "handle_arrival xi s cust = Inr s' \<Longrightarrow>
   \<exists>s2 q.
    ((busy_servers s < num_servers s \<and>
        start_service xi (s\<lparr>customers_arrived := customers_arrived s + 1,
                           busy_servers := busy_servers s + 1\<rparr>) cust = Inr s2) \<or>
     (\<not> busy_servers s < num_servers s \<and>
        s2 = s\<lparr>customers_arrived := customers_arrived s + 1,
               waiting_queue := waiting_queue s @ [cust]\<rparr>)) \<and>
    arrival_rate s2 \<noteq> 0 \<and>
    heappush (event_queue s2) (current_time s2 + xi (rng_drawn s2) / arrival_rate s2, Arrival,
        \<lparr>cust_id = next_customer_id s2,
         arrival_time = current_time s2 + xi (rng_drawn s2) / arrival_rate s2,
         service_start_time = None, departure_time = None\<rparr>) = Inr q \<and>
    s' = s2\<lparr>rng_drawn := Suc (rng_drawn s2), next_customer_id := next_customer_id s2 + 1,
             event_queue := q\<rparr>"
  by (auto simp: handle_arrival_def generate_interarrival_time_def expovariate_def schedule_event_def Let_def
      split: sum.splits prod.splits if_splits)

lemma handle_departure_Inr:
  "handle_departure xi s cust = Inr s' \<Longrightarrow>
   \<exists>w. waiting_time cust = Some w \<and>
    ((\<exists>nc rest. waiting_queue s = nc # rest \<and>
        start_service xi (s\<lparr>customers_served := customers_served s + 1,
            total_waiting_time := total_waiting_time s + w,
            total_system_time := total_system_time s + (current_time s - arrival_time cust),
            waiting_queue := rest\<rparr>) nc = Inr s') \<or>
     (waiting_queue s = [] \<and>
        s' = s\<lparr>customers_served := customers_served s + 1,
            total_waiting_time := total_waiting_time s + w,
            total_system_time := total_system_time s + (current_time s - arrival_time cust),
            busy_servers := busy_servers s - 1\<rparr>))"
  by (auto simp: handle_departure_def waiting_time_def system_time_def Let_def
      split: option.splits list.splits)

lemma run_iter_Continue:
  "run_iter xi mt mc s = Continue s' \<Longrightarrow>
   \<exists>ev q. event_queue s \<noteq> [] \<and> heappop (event_queue s) = Inr (ev, q) \<and>
     \<not> time_exceeded mt (ev_time ev) \<and> \<not> customers_reached mc (customers_served s) \<and>
     ((ev_kind ev = Arrival \<and> handle_arrival xi (pre_dispatch s ev q) (ev_data ev) = Inr s') \<or>
      (ev_kind ev = Departure \<and> handle_departure xi (pre_dispatch s ev q) (ev_data ev) = Inr s'))"
  by (auto simp: run_iter_def update_statistics_def pre_dispatch_def Let_def
      split: sum.splits prod.splits if_splits event_kind.splits)

lemma run_iter_Break:
  "run_iter xi mt mc s = Break s' \<Longrightarrow>
   (event_queue s = [] \<and> s' = s) \<or>
   (\<exists>ev q. heappop (event_queue s) = Inr (ev, q) \<and> s' = s\<lparr>event_queue := q\<rparr> \<and>
      (time_exceeded mt (ev_time ev) \<or> customers_reached mc (customers_served s)))"
  by (auto simp: run_iter_def Let_def
      split: sum.splits prod.splits if_splits event_kind.splits)

lemma run_start_Inr:
  "run_start xi s = Inr s' \<Longrightarrow>
   \<exists>q. arrival_rate s \<noteq> 0 \<and>
     heappush (event_queue s) (xi (rng_drawn s) / arrival_rate s, Arrival,
        \<lparr>cust_id = next_customer_id s, arrival_time = xi (rng_drawn s) / arrival_rate s,
         service_start_time = None, departure_time = None\<rparr>) = Inr q \<and>
     s' = s\<lparr>rng_drawn := Suc (rng_drawn s), next_customer_id := next_customer_id s + 1,
            event_queue := q\<rparr>"
  by (auto simp: run_start_def generate_interarrival_time_def expovariate_def schedule_event_def Let_def
      split: sum.splits prod.splits if_splits)

lemma start_service_counts:
  assumes "start_service xi s cust = Inr s'"
  shows "arrivals_pending (event_queue s') = arrivals_pending (event_queue s) \<and>
    departures_pending (event_queue s') = departures_pending (event_queue s) + 1 \<and>
    busy_servers s' = busy_servers s \<and> num_servers s' = num_servers s \<and>
    waiting_queue s' = waiting_queue s"
  using start_service_Inr[OF assms]
  by (auto simp: ev_kind_def dest: heappush_arrivals heappush_departures)

lemma handle_arrival_arrivals:
  assumes "handle_arrival xi s cust = Inr s'"
  shows "arrivals_pending (event_queue s') = arrivals_pending (event_queue s) + 1"
  using handle_arrival_Inr[OF assms]
  by (auto simp: ev_kind_def dest!: heappush_arrivals start_service_counts)

lemma handle_departure_arrivals:
  assumes "handle_departure xi s cust = Inr s'"
  shows "arrivals_pending (event_queue s') = arrivals_pending (event_queue s)"
  using handle_departure_Inr[OF assms]
  by (auto dest!: start_service_counts)

lemma handle_arrival_busy:
  assumes "handle_arrival xi s cust = Inr s'"
  shows "busy_servers s' = (if busy_servers s < num_servers s then busy_servers s + 1 else busy_servers s) \<and>
    departures_pending (event_queue s') =
      (if busy_servers s < num_servers s then departures_pending (event_queue s) + 1
       else departures_pending (event_queue s)) \<and>
    num_servers s' = num_servers s"
  using handle_arrival_Inr[OF assms]
  by (auto simp: ev_kind_def dest!: heappush_departures start_service_counts)

lemma handle_departure_busy:
  assumes "handle_departure xi s cust = Inr s'"
  shows "busy_servers s' = (if waiting_queue s = [] then busy_servers s - 1 else busy_servers s) \<and>
    departures_pending (event_queue s') =
      (if waiting_queue s = [] then departures_pending (event_queue s)
       else departures_pending (event_queue s) + 1) \<and>
    num_servers s' = num_servers s"
  using handle_departure_Inr[OF assms]
  by (auto dest!: start_service_counts)

lemma pre_dispatch_simps [simp]:
  "event_queue (pre_dispatch s ev q) = q"
  "busy_servers (pre_dispatch s ev q) = busy_servers s"
  "num_servers (pre_dispatch s ev q) = num_servers s"
  "waiting_queue (pre_dispatch s ev q) = waiting_queue s"
  "arrival_rate (pre_dispatch s ev q) = arrival_rate s"
  "service_rate (pre_dispatch s ev q) = service_rate s"
  "current_time (pre_dispatch s ev q) = ev_time ev"
  "time_history (pre_dispatch s ev q) = time_history s @ [ev_time ev]"
  by (simp_all add: pre_dispatch_def)

lemma run_iter_Continue_arrivals:
  assumes "run_iter xi mt mc s = Continue s'"
  shows "arrivals_pending (event_queue s') = arrivals_pending (event_queue s)"
  using run_iter_Continue[OF assms]
  by (auto dest!: heappop_arrivals handle_arrival_arrivals handle_departure_arrivals)

lemma run_iter_Break_arrivals:
  assumes "run_iter xi mt mc s = Break s'"
  shows "arrivals_pending (event_queue s') = arrivals_pending (event_queue s) \<or>
         arrivals_pending (event_queue s') + 1 = arrivals_pending (event_queue s)"
  using run_iter_Break[OF assms]
  by (auto dest!: heappop_arrivals split: if_splits)

lemma run_start_arrivals:
  assumes "run_start xi s = Inr s'"
  shows "arrivals_pending (event_queue s') = arrivals_pending (event_queue s) + 1"
  using run_start_Inr[OF assms]
  by (auto simp: ev_kind_def dest!: heappush_arrivals)

lemma run_Running_arrivals:
  assumes "run n xi mt mc s = Running s'"
  shows "arrivals_pending (event_queue s') = arrivals_pending (event_queue s) + 1"
proof -
  from assms obtain s0 where s0: "run_start xi s = Inr s0" and l: "run_loop n xi mt mc s0 = Running s'"
    by (auto simp: run_def split: sum.splits)
  have "arrivals_pending (event_queue s') = arrivals_pending (event_queue s0)"
    by (rule run_loop_Running_induct[OF l, where P = "\<lambda>t. arrivals_pending (event_queue t) = arrivals_pending (event_queue s0)"])
      (simp_all add: run_iter_Continue_arrivals)
  with run_start_arrivals[OF s0] show ?thesis by simp
qed

lemma run_Returned_arrivals:
  assumes "run n xi mt mc s = Returned s'"
  shows "arrivals_pending (event_queue s') = arrivals_pending (event_queue s) + 1 \<or>
         arrivals_pending (event_queue s') = arrivals_pending (event_queue s)"
proof -
  from assms obtain s0 where s0: "run_start xi s = Inr s0" and l: "run_loop n xi mt mc s0 = Returned s'"
    by (auto simp: run_def split: sum.splits)
  have "arrivals_pending (event_queue s') = arrivals_pending (event_queue s0) \<or>
        arrivals_pending (event_queue s') + 1 = arrivals_pending (event_queue s0)"
    by (rule run_loop_Returned_induct[OF l, where P = "\<lambda>t. arrivals_pending (event_queue t) = arrivals_pending (event_queue s0)"])
      (auto simp: run_iter_Continue_arrivals dest: run_iter_Break_arrivals)
  with run_start_arrivals[OF s0] show ?thesis by auto
qed

lemma run_iter_unbounded_no_Break:
  assumes "mc = None \<or> mc = Some 0" and "0 < arrivals_pending (event_queue s)"
  shows "run_iter xi None mc s \<noteq> Break s'"
proof
  assume "run_iter xi None mc s = Break s'"
  from run_iter_Break[OF this] assms show False
    by (auto simp: time_exceeded_def customers_reached_def arrivals_pending_def)
qed

lemma run_unbounded_no_return:
  assumes mc: "mc = None \<or> mc = Some 0"
  shows "run n xi None mc s \<noteq> Returned s'"
proof
  assume r: "run n xi None mc s = Returned s'"
  then obtain s0 where s0: "run_start xi s = Inr s0" and l: "run_loop n xi None mc s0 = Returned s'"
    by (auto simp: run_def split: sum.splits)
  have "0 < arrivals_pending (event_queue s0)"
    using run_start_arrivals[OF s0] by simp
  have False
    by (rule run_loop_Returned_induct[OF l, where P = "\<lambda>t. 0 < arrivals_pending (event_queue t)" and Q = "\<lambda>t. False"])
      (use \<open>0 < arrivals_pending (event_queue s0)\<close> run_iter_unbounded_no_Break[OF mc] in
        \<open>auto simp: run_iter_Continue_arrivals\<close>)
  then show False .
qed

lemma busy_inv_Continue:
  assumes "run_iter xi mt mc s = Continue s'" and "busy_inv s"
  shows "busy_inv s'"
  using run_iter_Continue[OF assms(1)] assms(2)
  unfolding busy_inv_def
  by (auto dest!: heappop_departures handle_arrival_busy handle_departure_busy split: if_splits)

lemma busy_inv_Break:
  assumes "run_iter xi mt mc s = Break s'" and "busy_inv s"
  shows "busy_inv s'"
  using run_iter_Break[OF assms(1)] assms(2)
  unfolding busy_inv_def
  by (auto dest!: heappop_departures split: if_splits)

lemma busy_inv_run_start:
  assumes "run_start xi s = Inr s'" and "busy_inv s"
  shows "busy_inv s'"
  using run_start_Inr[OF assms(1)] assms(2)
  unfolding busy_inv_def
  by (auto simp: ev_kind_def dest!: heappush_departures)

lemma busy_inv_run:
  assumes "run n xi mt mc s = Running s' \<or> run n xi mt mc s = Returned s'" and "busy_inv s"
  shows "busy_inv s'"
proof -
  from assms(1) obtain s0 where s0: "run_start xi s = Inr s0"
    and l: "run_loop n xi mt mc s0 = Running s' \<or> run_loop n xi mt mc s0 = Returned s'"
    by (auto simp: run_def split: sum.splits)
  have i0: "busy_inv s0" using busy_inv_run_start[OF s0 assms(2)] .
  from l show ?thesis
  proof
    assume "run_loop n xi mt mc s0 = Running s'"
    from run_loop_Running_induct[OF this, where P = busy_inv] i0 busy_inv_Continue
    show ?thesis by blast
  next
    assume "run_loop n xi mt mc s0 = Returned s'"
    from run_loop_Returned_induct[OF this, where P = busy_inv and Q = busy_inv] i0
      busy_inv_Continue busy_inv_Break
    show ?thesis by blast
  qed
qed

section \<open>Event times\<close>

lemma heappush_set: "heappush q e = Inr q' \<Longrightarrow> set q' = insert e (set q)"
  by (drule heappush_mset) (metis set_mset_add_mset_insert set_mset_mset)

lemma sorted_le_last: "sorted xs \<Longrightarrow> x \<in> set xs \<Longrightarrow> x \<le> last xs"
  for xs :: "real list"
  by (induction xs) auto

lemma ev_le_time: "ev_le a b \<Longrightarrow> ev_time a \<le> ev_time b"
  by (auto simp: ev_le_def)

lemma start_service_qinv:
  assumes "start_service xi s cust = Inr s'" and "qinv xi s"
  shows "qinv xi s' \<and> current_time s' = current_time s \<and> time_history s' = time_history s"
proof -
  from start_service_Inr[OF assms(1)] obtain q where
    q: "heappush (event_queue s) (current_time s + xi (rng_drawn s) / service_rate s, Departure,
        cust\<lparr>service_start_time := Some (current_time s)\<rparr>) = Inr q"
    and s': "s' = s\<lparr>rng_drawn := Suc (rng_drawn s), event_queue := q\<rparr>" by blast
  from assms(2) have "0 \<le> xi (rng_drawn s) / service_rate s" by (simp add: qinv_def)
  with heappush_ok[OF _ q] heappush_set[OF q] assms(2) s' show ?thesis
    by (auto simp: qinv_def ev_time_def)
qed

lemma handle_arrival_qinv:
  assumes "handle_arrival xi s cust = Inr s'" and "qinv xi s"
  shows "qinv xi s' \<and> current_time s' = current_time s \<and> time_history s' = time_history s"
proof -
  from handle_arrival_Inr[OF assms(1)] obtain s2 q where
    br: "(busy_servers s < num_servers s \<and>
        start_service xi (s\<lparr>customers_arrived := customers_arrived s + 1,
                           busy_servers := busy_servers s + 1\<rparr>) cust = Inr s2) \<or>
     (\<not> busy_servers s < num_servers s \<and>
        s2 = s\<lparr>customers_arrived := customers_arrived s + 1,
               waiting_queue := waiting_queue s @ [cust]\<rparr>)"
    and q: "heappush (event_queue s2) (current_time s2 + xi (rng_drawn s2) / arrival_rate s2, Arrival,
        \<lparr>cust_id = next_customer_id s2,
         arrival_time = current_time s2 + xi (rng_drawn s2) / arrival_rate s2,
         service_start_time = None, departure_time = None\<rparr>) = Inr q"
    and s': "s' = s2\<lparr>rng_drawn := Suc (rng_drawn s2), next_customer_id := next_customer_id s2 + 1,
             event_queue := q\<rparr>" by blast
  have "qinv xi (s\<lparr>customers_arrived := customers_arrived s + 1,
                           busy_servers := busy_servers s + 1\<rparr>)"
    using assms(2) by (simp add: qinv_def)
  with br assms(2) have s2: "qinv xi s2 \<and> current_time s2 = current_time s \<and> time_history s2 = time_history s"
    by (auto dest: start_service_qinv simp: qinv_def)
  then have "0 \<le> xi (rng_drawn s2) / arrival_rate s2" by (simp add: qinv_def)
  with heappush_ok[OF _ q] heappush_set[OF q] s2 s' show ?thesis
    by (auto simp: qinv_def ev_time_def)
qed

lemma handle_departure_qinv:
  assumes "handle_departure xi s cust = Inr s'" and "qinv xi s"
  shows "qinv xi s' \<and> current_time s' = current_time s \<and> time_history s' = time_history s"
proof -
  from handle_departure_Inr[OF assms(1)] obtain w where
    br: "(\<exists>nc rest. waiting_queue s = nc # rest \<and>
        start_service xi (s\<lparr>customers_served := customers_served s + 1,
            total_waiting_time := total_waiting_time s + w,
            total_system_time := total_system_time s + (current_time s - arrival_time cust),
            waiting_queue := rest\<rparr>) nc = Inr s') \<or>
     (waiting_queue s = [] \<and>
        s' = s\<lparr>customers_served := customers_served s + 1,
            total_waiting_time := total_waiting_time s + w,
            total_system_time := total_system_time s + (current_time s - arrival_time cust),
            busy_servers := busy_servers s - 1\<rparr>)" by blast
  have "qinv xi (s\<lparr>customers_served := customers_served s + 1,
            total_waiting_time := total_waiting_time s + w,
            total_system_time := total_system_time s + (current_time s - arrival_time cust),
            waiting_queue := rest\<rparr>)" for rest
    using assms(2) by (simp add: qinv_def)
  with br assms(2) show ?thesis
    by (auto dest: start_service_qinv simp: qinv_def)
qed

lemma run_iter_Continue_time:
  assumes c: "run_iter xi mt mc s = Continue s'"
    and h: "heap_ok (event_queue s)" "0 < arrival_rate s" "0 < service_rate s" "\<forall>n. 0 \<le> xi n"
  shows "\<exists>ev \<in> set (event_queue s). qinv xi s' \<and> current_time s' = ev_time ev \<and>
           time_history s' = time_history s @ [ev_time ev]"
proof -
  from run_iter_Continue[OF c] obtain ev q where
    pop: "heappop (event_queue s) = Inr (ev, q)"
    and d: "handle_arrival xi (pre_dispatch s ev q) (ev_data ev) = Inr s' \<or>
            handle_departure xi (pre_dispatch s ev q) (ev_data ev) = Inr s'" by blast
  from heappop_ok[OF h(1) pop] have q: "heap_ok q" "\<forall>x\<in>set q. ev_le ev x"
    and m: "mset (event_queue s) = add_mset ev (mset q)" by simp_all
  from m have mem: "ev \<in> set (event_queue s)"
    by (metis insertI1 set_mset_add_mset_insert set_mset_mset)
  have "qinv xi (pre_dispatch s ev q)"
    using q h by (auto simp: qinv_def dest: ev_le_time)
  with d have "qinv xi s' \<and> current_time s' = ev_time ev \<and> time_history s' = time_history s @ [ev_time ev]"
    by (auto dest: handle_arrival_qinv handle_departure_qinv)
  with mem show ?thesis by blast
qed

lemma tinv_Continue:
  assumes c: "run_iter xi mt mc s = Continue s'" and i: "tinv xi th0 s"
  shows "tinv xi th0 s'"
proof -
  from i obtain new where new: "time_history s = th0 @ new" "sorted new"
    "new \<noteq> [] \<longrightarrow> current_time s = last new \<and> (\<forall>e\<in>set (event_queue s). current_time s \<le> ev_time e)"
    and h: "heap_ok (event_queue s)" "0 < arrival_rate s" "0 < service_rate s" "\<forall>n. 0 \<le> xi n"
    unfolding tinv_def by blast
  from run_iter_Continue_time[OF c h] obtain ev where ev: "ev \<in> set (event_queue s)"
    "qinv xi s'" "current_time s' = ev_time ev" "time_history s' = time_history s @ [ev_time ev]"
    by blast
  have "sorted (new @ [ev_time ev])"
  proof (cases "new = []")
    case True
    then show ?thesis by simp
  next
    case False
    with new ev have le: "last new \<le> ev_time ev" by auto
    have "x \<le> last new" if "x \<in> set new" for x
      using that new(2) by (rule sorted_le_last[rotated])
    with le new(2) show ?thesis by (fastforce simp: sorted_append)
  qed
  with ev new(1) show ?thesis
    unfolding tinv_def qinv_def by (intro conjI exI[of _ "new @ [ev_time ev]"]) auto
qed

lemma tinv_Break:
  assumes c: "run_iter xi mt mc s = Break s'" and i: "tinv xi th0 s"
  shows "tinv xi th0 s'"
proof -
  from run_iter_Break[OF c] show ?thesis
  proof
    assume "event_queue s = [] \<and> s' = s"
    with i show ?thesis by simp
  next
    assume "\<exists>ev q. heappop (event_queue s) = Inr (ev, q) \<and> s' = s\<lparr>event_queue := q\<rparr> \<and>
      (time_exceeded mt (ev_time ev) \<or> customers_reached mc (customers_served s))"
    then obtain ev q where pop: "heappop (event_queue s) = Inr (ev, q)" and s': "s' = s\<lparr>event_queue := q\<rparr>"
      by blast
    from i have h: "heap_ok (event_queue s)" by (simp add: tinv_def)
    from heappop_ok[OF h pop] have q: "heap_ok q" and m: "mset (event_queue s) = add_mset ev (mset q)"
      by simp_all
    from m have "set q \<subseteq> set (event_queue s)"
      by (metis set_mset_add_mset_insert set_mset_mset subset_insertI)
    with i q s' show ?thesis
      unfolding tinv_def by auto
  qed
qed

lemma tinv_run_start:
  assumes "run_start xi s = Inr s'" and h: "heap_ok (event_queue s)" "0 < arrival_rate s"
    "0 < service_rate s" "\<forall>n. 0 \<le> xi n"
  shows "tinv xi (time_history s) s'"
proof -
  from run_start_Inr[OF assms(1)] obtain q where
    q: "heappush (event_queue s) (xi (rng_drawn s) / arrival_rate s, Arrival,
        \<lparr>cust_id = next_customer_id s, arrival_time = xi (rng_drawn s) / arrival_rate s,
         service_start_time = None, departure_time = None\<rparr>) = Inr q"
    and s': "s' = s\<lparr>rng_drawn := Suc (rng_drawn s), next_customer_id := next_customer_id s + 1,
            event_queue := q\<rparr>" by blast
  from heappush_ok[OF h(1) q] h s' show ?thesis
    unfolding tinv_def by auto
qed

lemma tinv_run:
  assumes r: "run n xi mt mc s = Running s' \<or> run n xi mt mc s = Returned s'"
    and h: "heap_ok (event_queue s)" "0 < arrival_rate s" "0 < service_rate s" "\<forall>n. 0 \<le> xi n"
  shows "tinv xi (time_history s) s'"
proof -
  from r obtain s0 where s0: "run_start xi s = Inr s0"
    and l: "run_loop n xi mt mc s0 = Running s' \<or> run_loop n xi mt mc s0 = Returned s'"
    by (auto simp: run_def split: sum.splits)
  have i0: "tinv xi (time_history s) s0" using tinv_run_start[OF s0 h] .
  from l show ?thesis
  proof
    assume "run_loop n xi mt mc s0 = Running s'"
    from run_loop_Running_induct[OF this, where P = "tinv xi (time_history s)"] i0 tinv_Continue
    show ?thesis by blast
  next
    assume "run_loop n xi mt mc s0 = Returned s'"
    from run_loop_Returned_induct[OF this, where P = "tinv xi (time_history s)" and Q = "tinv xi (time_history s)"] i0
      tinv_Continue tinv_Break
    show ?thesis by blast
  qed
qed

section \<open>Construction (claim C4)\<close>




section \<open>The statistics snapshot (claim C6)\<close>

text \<open>
  C6 at a new instance, where no customer has departed: the snapshot has nine
  entries, the averages and the utilization are zero, and there is no entry for the
  current simulated time, which the snapshot of the other branch of \<open>get_statistics\<close>
  has under the key \<open>current_time\<close>.
\<close>

theorem get_statistics_new_instance:
  "get_statistics (init_state 0 1 1 (3/2)) = Inr
     [(''customers_arrived'', PInt 0),
      (''customers_served'', PInt 0),
      (''avg_waiting_time'', PInt 0),
      (''avg_system_time'', PInt 0),
      (''avg_queue_length'', PInt 0),
      (''max_queue_length'', PInt 0),
      (''server_utilization'', PInt 0),
      (''current_queue_length'', PInt 0),
      (''busy_servers'', PInt 0)] \<and>
   \<not> has_key (projr (get_statistics (init_state 0 1 1 (3/2)))) ''current_time''"
  by (simp add: get_statistics_def init_state_def has_key_def)

section \<open>Statistics update (claim C2)\<close>

lemma start_service_stats:
  assumes "start_service xi s cust = Inr s'"
  shows "queue_length_sum s' = queue_length_sum s \<and> max_queue_length s' = max_queue_length s \<and>
         last_event_time s' = last_event_time s"
  using start_service_Inr[OF assms] by auto

lemma handle_arrival_stats:
  assumes "handle_arrival xi s cust = Inr s'"
  shows "queue_length_sum s' = queue_length_sum s \<and> max_queue_length s' = max_queue_length s \<and>
         last_event_time s' = last_event_time s"
  using handle_arrival_Inr[OF assms] by (auto dest!: start_service_stats)

lemma handle_departure_stats:
  assumes "handle_departure xi s cust = Inr s'"
  shows "queue_length_sum s' = queue_length_sum s \<and> max_queue_length s' = max_queue_length s \<and>
         last_event_time s' = last_event_time s"
  using handle_departure_Inr[OF assms] by (auto dest!: start_service_stats)

text \<open>
  C2: one pass of the loop that processes an event \<open>ev\<close> increases the
  time-weighted queue-length integral by the length the waiting FIFO had before the
  event was handled, times the time of \<open>ev\<close> minus the time of the previous event,
  and replaces the maximum queue length by the maximum of itself and that same length;
  the handlers do not touch these statistics again. A pass that stops the run
  processes no event and leaves the statistics as they were.
\<close>

theorem statistics_use_pre_event_state:
  "(run_iter xi mt mc s = Continue s' \<longrightarrow>
      (\<exists>ev q. heappop (event_queue s) = Inr (ev, q) \<and>
         queue_length_sum s' = queue_length_sum s +
           of_int (int (length (waiting_queue s))) * (ev_time ev - last_event_time s) \<and>
         max_queue_length s' = max (max_queue_length s) (int (length (waiting_queue s))) \<and>
         last_event_time s' = ev_time ev)) \<and>
   (run_iter xi mt mc s = Break s' \<longrightarrow>
      queue_length_sum s' = queue_length_sum s \<and> max_queue_length s' = max_queue_length s \<and>
      last_event_time s' = last_event_time s)"
proof (rule conjI; rule impI)
  assume "run_iter xi mt mc s = Continue s'"
  from run_iter_Continue[OF this] obtain ev q where
    pop: "heappop (event_queue s) = Inr (ev, q)"
    and d: "handle_arrival xi (pre_dispatch s ev q) (ev_data ev) = Inr s' \<or>
            handle_departure xi (pre_dispatch s ev q) (ev_data ev) = Inr s'" by blast
  from d have "queue_length_sum s' = queue_length_sum (pre_dispatch s ev q) \<and>
      max_queue_length s' = max_queue_length (pre_dispatch s ev q) \<and>
      last_event_time s' = last_event_time (pre_dispatch s ev q)"
    by (auto dest: handle_arrival_stats handle_departure_stats)
  with pop show "\<exists>ev q. heappop (event_queue s) = Inr (ev, q) \<and>
         queue_length_sum s' = queue_length_sum s +
           of_int (int (length (waiting_queue s))) * (ev_time ev - last_event_time s) \<and>
         max_queue_length s' = max (max_queue_length s) (int (length (waiting_queue s))) \<and>
         last_event_time s' = ev_time ev"
    by (auto simp: pre_dispatch_def)
next
  assume "run_iter xi mt mc s = Break s'"
  from run_iter_Break[OF this]
  show "queue_length_sum s' = queue_length_sum s \<and> max_queue_length s' = max_queue_length s \<and>
      last_event_time s' = last_event_time s"
    by auto
qed


theorem statistics_use_pre_event_state_witness:
  "is_Continue (run_iter late_service_draws None None queued_state) \<and>
   length (waiting_queue queued_state) = 1 \<and>
   queue_length_sum queued_state = 0 \<and>
   last_event_time queued_state = 2 \<and>
   queue_length_sum (step_state (run_iter late_service_draws None None queued_state)) = 1 \<and>
   max_queue_length (step_state (run_iter late_service_draws None None queued_state)) = 1 \<and>
   last_event_time (step_state (run_iter late_service_draws None None queued_state)) = 3 \<and>
   length (waiting_queue (step_state (run_iter late_service_draws None None queued_state))) = 2 \<and>
   is_Break (run_iter late_service_draws (Some (5 / 2)) None queued_state) \<and>
   queue_length_sum (step_state (run_iter late_service_draws (Some (5 / 2)) None queued_state)) = 0"
proof -
  let ?c = "run_iter late_service_draws None None queued_state"
  let ?b = "run_iter late_service_draws (Some (5 / 2)) None queued_state"
  have c: "is_Continue ?c" by code_simp
  then have ceq: "?c = Continue (step_state ?c)" by (cases ?c) simp_all
  have b: "is_Break ?b" by code_simp
  then have beq: "?b = Break (step_state ?b)" by (cases ?b) simp_all
  have pre: "length (waiting_queue queued_state) = 1" "queue_length_sum queued_state = 0"
    "last_event_time queued_state = 2" "max_queue_length queued_state = 0"
    by code_simp+
  have pop: "ev_time (fst (projr (heappop (event_queue queued_state)))) = 3"
    "\<not> isl (heappop (event_queue queued_state))"
    by code_simp+
  have post: "length (waiting_queue (step_state ?c)) = 2" by code_simp
  note t = statistics_use_pre_event_state
    [of late_service_draws None None queued_state "step_state ?c"]
  note u = statistics_use_pre_event_state
    [of late_service_draws "Some (5 / 2)" None queued_state "step_state ?b"]
  from t ceq obtain ev q where e: "heappop (event_queue queued_state) = Inr (ev, q)"
    "queue_length_sum (step_state ?c) = queue_length_sum queued_state +
           of_int (int (length (waiting_queue queued_state))) * (ev_time ev - last_event_time queued_state)"
    "max_queue_length (step_state ?c) = max (max_queue_length queued_state) (int (length (waiting_queue queued_state)))"
    "last_event_time (step_state ?c) = ev_time ev"
    by auto
  from e(1) pop have "ev_time ev = 3" by simp
  with e pre have "queue_length_sum (step_state ?c) = 1" "max_queue_length (step_state ?c) = 1"
    "last_event_time (step_state ?c) = 3" by simp_all
  moreover from u beq pre have "queue_length_sum (step_state ?b) = 0" by auto
  ultimately show ?thesis using c b pre post by simp
qed

section \<open>Theoretical statistics (claim C3)\<close>


lemma bind_err_Inl [simp]: "bind_err (Inl e) f = Inl e"
  by (simp add: bind_err_def)









section \<open>Running without a bound (claim C1)\<close>

lemma heappush_Nil: "heappush [] e = Inr [e]"
  by (simp add: heappush_def siftdown_def siftdown_loop.simps[of _ 0 0])

lemma heappop_single: "heappop [e] = Inr (e, [])"
  by (simp add: heappop_def)

lemma heappush_single:
  "heappush [a] b =
     (case event_lt b a of Inl err \<Rightarrow> Inl err | Inr t \<Rightarrow> Inr (if t then [b, a] else [a, b]))"
  by (simp add: heappush_def siftdown_def siftdown_loop.simps[of _ 0 "Suc 0"]
      siftdown_loop.simps[of _ 0 0] split: sum.splits)

lemma event_lt_kinds: "ev_kind a \<noteq> ev_kind b \<Longrightarrow> \<exists>t. event_lt a b = Inr t"
  by (simp add: event_lt_def)

lemma handle_arrival_empty_queue:
  assumes "event_queue s = []" "arrival_rate s \<noteq> 0" "service_rate s \<noteq> 0"
  shows "\<exists>s'. handle_arrival xi s cust = Inr s' \<and> customers_arrived s' = customers_arrived s + 1"
proof (cases "busy_servers s < num_servers s")
  case True
  let ?d = "(current_time s + xi (rng_drawn s) / service_rate s, Departure,
      cust\<lparr>service_start_time := Some (current_time s)\<rparr>)"
  let ?a = "(current_time s + xi (Suc (rng_drawn s)) / arrival_rate s, Arrival,
      \<lparr>cust_id = next_customer_id s,
       arrival_time = current_time s + xi (Suc (rng_drawn s)) / arrival_rate s,
       service_start_time = None, departure_time = None\<rparr>)"
  obtain t where "event_lt ?a ?d = Inr t"
    using event_lt_kinds[of ?a ?d] by (auto simp: ev_kind_def)
  with True assms show ?thesis
    by (simp add: handle_arrival_def start_service_def generate_service_time_def
        generate_interarrival_time_def expovariate_def schedule_event_def Let_def
        heappush_Nil heappush_single)
next
  case False
  with assms show ?thesis
    by (simp add: handle_arrival_def generate_interarrival_time_def expovariate_def
        schedule_event_def Let_def heappush_Nil)
qed

lemma first_event_processed:
  assumes "mc = None \<or> mc = Some 0" "lam \<noteq> 0" "mu \<noteq> 0"
  shows "is_Running (run 1 xi None mc (init_state r c lam mu)) \<and>
         customers_arrived (result_state (run 1 xi None mc (init_state r c lam mu))) = 1"
proof -
  let ?e = "(xi r / lam, Arrival, \<lparr>cust_id = 0, arrival_time = xi r / lam,
         service_start_time = None, departure_time = None\<rparr>)"
  let ?s0 = "(init_state r c lam mu)\<lparr>rng_drawn := Suc r, next_customer_id := 1,
            event_queue := [?e]\<rparr>"
  have s0: "run_start xi (init_state r c lam mu) = Inr ?s0"
    using assms by (simp add: run_start_def generate_interarrival_time_def expovariate_def
        schedule_event_def heappush_Nil init_state_def)
  let ?p = "pre_dispatch ?s0 ?e []"
  have "event_queue ?p = []" "arrival_rate ?p \<noteq> 0" "service_rate ?p \<noteq> 0"
    using assms by (simp_all add: init_state_def)
  from handle_arrival_empty_queue[OF this, of xi "ev_data ?e"] obtain s' where
    s': "handle_arrival xi ?p (ev_data ?e) = Inr s'" "customers_arrived s' = customers_arrived ?p + 1"
    by blast
  have "run_iter xi None mc ?s0 = Continue s'"
    using assms(1) s'(1)
    by (auto simp: run_iter_def heappop_single time_exceeded_def customers_reached_def
        update_statistics_def pre_dispatch_def Let_def ev_kind_def ev_time_def)
  with s0 have "run 1 xi None mc (init_state r c lam mu) = Running s'"
    by (simp add: run_def)
  moreover have "customers_arrived s' = 1"
    using s'(2) by (simp add: pre_dispatch_def init_state_def)
  ultimately show ?thesis by simp
qed

text \<open>
  C1, as stated, fails: on a new instance with one server, \<open>run\<close> called with both
  bounds absent, and likewise with \<open>max_customers = 0\<close> and no \<open>max_time\<close>, raises
  nothing; after one pass of its loop it is still going and has processed the first
  arrival, at time 1.
\<close>

theorem run_without_bounds_counterexample:
  "is_Running (run 1 unit_draws None None (init_state 0 1 1 (3 / 2))) \<and>
   customers_arrived (result_state (run 1 unit_draws None None (init_state 0 1 1 (3 / 2)))) = 1 \<and>
   time_history (result_state (run 1 unit_draws None None (init_state 0 1 1 (3 / 2)))) = [1] \<and>
   is_Running (run 1 unit_draws None (Some 0) (init_state 0 1 1 (3 / 2))) \<and>
   customers_arrived (result_state (run 1 unit_draws None (Some 0) (init_state 0 1 1 (3 / 2)))) = 1 \<and>
   time_history (result_state (run 1 unit_draws None (Some 0) (init_state 0 1 1 (3 / 2)))) = [1]"
  by code_simp

text \<open>
  C1, amended: \<open>run\<close> checks neither bound. With both bounds absent, or with
  \<open>max_customers = 0\<close> and no \<open>max_time\<close> (zero counts as absent), it schedules the
  first arrival and enters the event loop, and no bound and no empty queue ever ends
  that loop: whatever the state and however many passes are made, \<open>run\<close> has not
  returned. On a new instance with non-zero rates the first event is processed.
\<close>

theorem run_without_bounds:
  "mc = None \<or> mc = Some 0 \<Longrightarrow>
   \<not> is_Returned (run n xi None mc s) \<and>
   (lam \<noteq> 0 \<and> mu \<noteq> 0 \<longrightarrow>
      is_Running (run 1 xi None mc (init_state r c lam mu)) \<and>
      customers_arrived (result_state (run 1 xi None mc (init_state r c lam mu))) = 1)"
  using run_unbounded_no_return[of mc n xi s] first_event_processed[of mc lam mu xi r c]
  by (cases "run n xi None mc s") auto

theorem run_without_bounds_witness:
  "\<not> is_Returned (run 50 unit_draws None (Some 0) (init_state 0 2 1 (3 / 2))) \<and>
   is_Running (run 1 unit_draws None (Some 0) (init_state 0 2 1 (3 / 2))) \<and>
   customers_arrived (result_state (run 1 unit_draws None (Some 0) (init_state 0 2 1 (3 / 2)))) = 1"
  using run_without_bounds [of "Some 0" 50 unit_draws "init_state 0 2 1 (3 / 2)" 1 "3 / 2" 0 2]
  by simp

section \<open>Order of events with equal times (claim C5)\<close>

lemma heap_built_ok: "heap_built h \<Longrightarrow> heap_ok h"
proof (induction rule: heap_built.induct)
  case built_empty
  show ?case by (simp add: heap_ok_def)
next
  case (built_push h e h')
  then show ?case using heappush_ok by blast
next
  case (built_pop h e h')
  then show ?case using heappop_ok by blast
qed

text \<open>
  C5, as stated, fails. A departure and then an arrival are scheduled for the same
  time 1: the arrival, inserted second, is popped first, so the tie is not broken by
  insertion order. Two departures of different customers scheduled for the same time
  raise TypeError; in a run with two servers in which the first two customers finish
  service at the same time, \<open>run\<close> ends with that TypeError.
\<close>

theorem tie_break_counterexample:
  "schedule_event (init_state 0 2 1 1) 1 Departure customer_a =
     Inr ((init_state 0 2 1 1)\<lparr>event_queue := [(1, Departure, customer_a)]\<rparr>) \<and>
   schedule_event ((init_state 0 2 1 1)\<lparr>event_queue := [(1, Departure, customer_a)]\<rparr>)
       1 Arrival customer_b =
     Inr ((init_state 0 2 1 1)\<lparr>event_queue :=
            [(1, Arrival, customer_b), (1, Departure, customer_a)]\<rparr>) \<and>
   heappop [(1, Arrival, customer_b), (1, Departure, customer_a)] =
     Inr ((1, Arrival, customer_b), [(1, Departure, customer_a)]) \<and>
   schedule_event ((init_state 0 2 1 1)\<lparr>event_queue := [(1, Departure, customer_a)]\<rparr>)
       1 Departure customer_b = Inl TypeError \<and>
   run 2 colliding_draws (Some 10) None (init_state 0 2 1 1) = Raised TypeError"
  by code_simp

text \<open>
  C5, amended: popping returns the pending events in order of time, and of two
  pending events with equal times and different kinds the arrival is popped before
  the departure, whatever the order of insertion; the order is a function of the
  queue's content, with no nondeterminism.
\<close>

theorem pop_order:
  assumes "heap_built h" and "heappop h = Inr (e, h')"
  shows "\<forall>x\<in>set h'. ev_time e < ev_time x \<or>
           (ev_time e = ev_time x \<and> (ev_kind e = Arrival \<or> ev_kind x = Departure))"
proof
  fix x assume "x \<in> set h'"
  with heappop_ok[OF heap_built_ok[OF assms(1)] assms(2)] have "ev_le e x" by simp
  then show "ev_time e < ev_time x \<or>
           (ev_time e = ev_time x \<and> (ev_kind e = Arrival \<or> ev_kind x = Departure))"
    unfolding ev_le_def by (cases "ev_kind e"; cases "ev_kind x") auto
qed

theorem pop_order_witness:
  "heappush [] (1, Departure, customer_a) = Inr [(1, Departure, customer_a)] \<and>
   heappush [(1, Departure, customer_a)] (1, Arrival, customer_b) =
     Inr [(1, Arrival, customer_b), (1, Departure, customer_a)] \<and>
   heappop [(1, Arrival, customer_b), (1, Departure, customer_a)] =
     Inr ((1, Arrival, customer_b), [(1, Departure, customer_a)]) \<and>
   ev_time (1, Arrival, customer_b) = ev_time (1, Departure, customer_a) \<and>
   ev_kind (1, Arrival, customer_b) = Arrival"
proof -
  have p1: "heappush [] (1, Departure, customer_a) = Inr [(1, Departure, customer_a)]"
    by code_simp
  have p2: "heappush [(1, Departure, customer_a)] (1, Arrival, customer_b) =
      Inr [(1, Arrival, customer_b), (1, Departure, customer_a)]"
    by code_simp
  have b: "heap_built [(1, Arrival, customer_b), (1, Departure, customer_a)]"
    using built_push[OF built_push[OF built_empty p1] p2] .
  have pop: "heappop [(1, Arrival, customer_b), (1, Departure, customer_a)] =
     Inr ((1, Arrival, customer_b), [(1, Departure, customer_a)])"
    by code_simp
  from pop_order[OF b pop] have "ev_time (1, Arrival, customer_b) < ev_time (1, Departure, customer_a) \<or>
      (ev_time (1, Arrival, customer_b) = ev_time (1, Departure, customer_a) \<and>
       (ev_kind (1, Arrival, customer_b) = Arrival \<or> ev_kind (1, Departure, customer_a) = Departure))"
    by simp
  then have "ev_time (1, Arrival, customer_b) = ev_time (1, Departure, customer_a) \<and>
      ev_kind (1, Arrival, customer_b) = Arrival"
    by (simp add: ev_time_def ev_kind_def)
  with p1 p2 pop show ?thesis by blast
qed

section \<open>Server occupancy (claim C7)\<close>

lemma busy_inv_init: "0 \<le> c \<Longrightarrow> busy_inv (init_state r c lam mu)"
  by (simp add: busy_inv_def init_state_def departures_pending_def)

lemma run_num_servers:
  assumes "run n xi mt mc s = Running s' \<or> run n xi mt mc s = Returned s'"
  shows "num_servers s' = num_servers s"
proof -
  have step: "num_servers b = num_servers a" if "run_iter xi mt mc a = Continue b" for a b
  proof -
    from run_iter_Continue[OF that] obtain ev q where
      "handle_arrival xi (pre_dispatch a ev q) (ev_data ev) = Inr b \<or>
       handle_departure xi (pre_dispatch a ev q) (ev_data ev) = Inr b" by blast
    then show ?thesis
      using handle_arrival_busy[of xi "pre_dispatch a ev q" "ev_data ev" b]
        handle_departure_busy[of xi "pre_dispatch a ev q" "ev_data ev" b] by auto
  qed
  have brk: "num_servers b = num_servers a" if "run_iter xi mt mc a = Break b" for a b
    using run_iter_Break[OF that] by auto
  from assms obtain s0 where s0: "run_start xi s = Inr s0"
    and l: "run_loop n xi mt mc s0 = Running s' \<or> run_loop n xi mt mc s0 = Returned s'"
    by (auto simp: run_def split: sum.splits)
  from run_start_Inr[OF s0] have n0: "num_servers s0 = num_servers s" by auto
  from l show ?thesis
  proof
    assume l1: "run_loop n xi mt mc s0 = Running s'"
    show ?thesis
    proof (rule run_loop_Running_induct[OF l1, where P = "\<lambda>t. num_servers t = num_servers s"])
      show "num_servers s0 = num_servers s" by (rule n0)
    next
      fix a b assume "num_servers a = num_servers s" "run_iter xi mt mc a = Continue b"
      then show "num_servers b = num_servers s" using step[of a b] by simp
    qed
  next
    assume l2: "run_loop n xi mt mc s0 = Returned s'"
    show ?thesis
    proof (rule run_loop_Returned_induct[OF l2, where P = "\<lambda>t. num_servers t = num_servers s"
          and Q = "\<lambda>t. num_servers t = num_servers s"])
      show "num_servers s0 = num_servers s" by (rule n0)
    next
      fix a b assume "num_servers a = num_servers s" "run_iter xi mt mc a = Continue b"
      then show "num_servers b = num_servers s" using step[of a b] by simp
    next
      fix a b assume "num_servers a = num_servers s" "run_iter xi mt mc a = Break b"
      then show "num_servers b = num_servers s" using brk[of a b] by simp
    qed
  qed
qed

lemma busy_range_new:
  assumes c: "0 \<le> c" and r: "\<not> is_Raised (run n xi mt mc (init_state r c lam mu))"
  shows "busy_inv (result_state (run n xi mt mc (init_state r c lam mu))) \<and>
         num_servers (result_state (run n xi mt mc (init_state r c lam mu))) = c"
proof -
  let ?R = "run n xi mt mc (init_state r c lam mu)"
  from r have "?R = Running (result_state ?R) \<or> ?R = Returned (result_state ?R)"
    by (cases ?R) simp_all
  from busy_inv_run[OF this busy_inv_init[OF c]] run_num_servers[OF this]
  show ?thesis by (simp add: init_state_def)
qed

text \<open>
  C7: in every state that a run on a new instance with a non-negative number of
  servers reaches (between two events, or when \<open>run\<close> returns), \<open>busy_servers\<close> lies
  between 0 and \<open>num_servers\<close>, and the waiting FIFO, a list, has a non-negative
  length. The arrival handler increments \<open>busy_servers\<close> exactly when it is below
  \<open>num_servers\<close>; the departure handler decrements it exactly when nobody waits, and
  whenever the next event of such a run is a departure some server is busy.
\<close>

theorem busy_servers_in_range:
  "(0 \<le> c \<and> \<not> is_Raised (run n xi mt mc (init_state r c lam mu)) \<longrightarrow>
      0 \<le> busy_servers (result_state (run n xi mt mc (init_state r c lam mu))) \<and>
      busy_servers (result_state (run n xi mt mc (init_state r c lam mu))) \<le> c \<and>
      num_servers (result_state (run n xi mt mc (init_state r c lam mu))) = c \<and>
      0 \<le> int (length (waiting_queue (result_state (run n xi mt mc (init_state r c lam mu)))))) \<and>
   (handle_arrival xi s cust = Inr s1 \<longrightarrow>
      busy_servers s1 =
        (if busy_servers s < num_servers s then busy_servers s + 1 else busy_servers s)) \<and>
   (handle_departure xi s cust = Inr s1 \<longrightarrow>
      busy_servers s1 = (if waiting_queue s = [] then busy_servers s - 1 else busy_servers s)) \<and>
   (0 \<le> c \<and> is_Running (run n xi mt mc (init_state r c lam mu)) \<and>
    heappop (event_queue (result_state (run n xi mt mc (init_state r c lam mu)))) = Inr (ev, q) \<and>
    ev_kind ev = Departure \<longrightarrow>
      0 < busy_servers (result_state (run n xi mt mc (init_state r c lam mu))))"
proof -
  let ?R = "run n xi mt mc (init_state r c lam mu)"
  have a: "0 \<le> busy_servers (result_state ?R) \<and> busy_servers (result_state ?R) \<le> c \<and>
      num_servers (result_state ?R) = c \<and> 0 \<le> int (length (waiting_queue (result_state ?R)))"
    if "0 \<le> c" "\<not> is_Raised ?R"
    using busy_range_new[OF that] by (auto simp: busy_inv_def)
  have b: "busy_servers s1 =
        (if busy_servers s < num_servers s then busy_servers s + 1 else busy_servers s)"
    if "handle_arrival xi s cust = Inr s1"
    using handle_arrival_busy[OF that] by simp
  have d: "busy_servers s1 = (if waiting_queue s = [] then busy_servers s - 1 else busy_servers s)"
    if "handle_departure xi s cust = Inr s1"
    using handle_departure_busy[OF that] by simp
  have e: "0 < busy_servers (result_state ?R)"
    if "0 \<le> c" "is_Running ?R" "heappop (event_queue (result_state ?R)) = Inr (ev, q)"
      "ev_kind ev = Departure"
  proof -
    from that(2) have "\<not> is_Raised ?R" by (cases ?R) simp_all
    from busy_range_new[OF that(1) this] heappop_departures[OF that(3)] that(4)
    show ?thesis by (simp add: busy_inv_def)
  qed
  from a b d e show ?thesis by blast
qed

theorem busy_servers_in_range_witness:
  "\<not> is_Raised (run 3 late_service_draws None None (init_state 0 1 1 1)) \<and>
   is_Running (run 3 late_service_draws None None (init_state 0 1 1 1)) \<and>
   busy_servers (result_state (run 3 late_service_draws None None (init_state 0 1 1 1))) = 1 \<and>
   num_servers (result_state (run 3 late_service_draws None None (init_state 0 1 1 1))) = 1 \<and>
   length (waiting_queue (result_state (run 3 late_service_draws None None (init_state 0 1 1 1)))) = 2 \<and>
   \<not> isl (heappop (event_queue (result_state
        (run 3 late_service_draws None None (init_state 0 1 1 1))))) \<and>
   ev_kind (fst (projr (heappop (event_queue (result_state
        (run 3 late_service_draws None None (init_state 0 1 1 1))))))) = Departure \<and>
   \<not> isl (handle_arrival unit_draws (init_state 0 1 1 1) customer_b) \<and>
   busy_servers (projr (handle_arrival unit_draws (init_state 0 1 1 1) customer_b)) = 1 \<and>
   \<not> isl (handle_departure unit_draws ((init_state 0 1 1 1)\<lparr>busy_servers := 1\<rparr>) customer_a) \<and>
   busy_servers (projr (handle_departure unit_draws
        ((init_state 0 1 1 1)\<lparr>busy_servers := 1\<rparr>) customer_a)) = 0"
proof -
  let ?R = "run 3 late_service_draws None None (init_state 0 1 1 1)"
  let ?A = "handle_arrival unit_draws (init_state 0 1 1 1) customer_b"
  let ?D = "handle_departure unit_draws ((init_state 0 1 1 1)\<lparr>busy_servers := 1\<rparr>) customer_a"
  let ?P = "heappop (event_queue (result_state ?R))"
  have h: "is_Running ?R" "\<not> isl ?P" "ev_kind (fst (projr ?P)) = Departure"
    "\<not> isl ?A" "\<not> isl ?D"
    "busy_servers (result_state ?R) = 1"
    "length (waiting_queue (result_state ?R)) = 2"
    "busy_servers (init_state 0 1 1 1) = 0" "num_servers (init_state 0 1 1 1) = 1"
    by code_simp+
  then have nr: "\<not> is_Raised ?R" by (cases ?R) simp_all
  from h have peq: "?P = Inr (fst (projr ?P), snd (projr ?P))" by (cases ?P) simp_all
  from h have aeq: "?A = Inr (projr ?A)" by (cases ?A) simp_all
  from h have deq: "?D = Inr (projr ?D)" by (cases ?D) simp_all
  note t = busy_servers_in_range[where c = 1 and n = 3 and xi = late_service_draws
      and mt = None and mc = None and r = 0 and lam = 1 and mu = 1]
  from t[where s = "init_state 0 1 1 1" and cust = customer_b and ?s1.0 = "projr ?A"] nr
  have 1: "num_servers (result_state ?R) = 1" by simp
  from busy_servers_in_range[where xi = unit_draws and s = "init_state 0 1 1 1"
      and cust = customer_b and ?s1.0 = "projr ?A"] aeq h
  have 2: "busy_servers (projr ?A) = 1" by simp
  from busy_servers_in_range[where xi = unit_draws
      and s = "(init_state 0 1 1 1)\<lparr>busy_servers := 1\<rparr>"
      and cust = customer_a and ?s1.0 = "projr ?D"] deq
  have 3: "busy_servers (projr ?D) = 0" by (simp add: init_state_def)
  from h nr 1 2 3 show ?thesis by simp
qed

section \<open>Monotone clock (claim C8)\<close>

lemma qinv_Continue:
  assumes c: "run_iter xi mt mc s = Continue s'" and i: "qinv xi s \<and> T \<le> current_time s"
  shows "qinv xi s' \<and> T \<le> current_time s'"
proof -
  from i have h: "heap_ok (event_queue s)" "0 < arrival_rate s" "0 < service_rate s" "\<forall>n. 0 \<le> xi n"
    by (simp_all add: qinv_def)
  from run_iter_Continue_time[OF c h] obtain ev where ev: "ev \<in> set (event_queue s)"
    "qinv xi s'" "current_time s' = ev_time ev" by blast
  from i ev(1) have "current_time s \<le> ev_time ev" by (simp add: qinv_def)
  with i ev show ?thesis by simp
qed

lemma qinv_Break:
  assumes c: "run_iter xi mt mc s = Break s'" and i: "qinv xi s \<and> T \<le> current_time s"
  shows "qinv xi s' \<and> T \<le> current_time s'"
proof -
  from run_iter_Break[OF c] show ?thesis
  proof
    assume "event_queue s = [] \<and> s' = s"
    with i show ?thesis by simp
  next
    assume "\<exists>ev q. heappop (event_queue s) = Inr (ev, q) \<and> s' = s\<lparr>event_queue := q\<rparr> \<and>
      (time_exceeded mt (ev_time ev) \<or> customers_reached mc (customers_served s))"
    then obtain ev q where pop: "heappop (event_queue s) = Inr (ev, q)" and s': "s' = s\<lparr>event_queue := q\<rparr>"
      by blast
    from i have h: "heap_ok (event_queue s)" by (simp add: qinv_def)
    from heappop_ok[OF h pop] have q: "heap_ok q" and m: "mset (event_queue s) = add_mset ev (mset q)"
      by simp_all
    from m have "set q \<subseteq> set (event_queue s)"
      by (metis set_mset_add_mset_insert set_mset_mset subset_insertI)
    with i q s' show ?thesis
      unfolding qinv_def by auto
  qed
qed

lemma clock_not_before_start:
  assumes r: "run n xi mt mc s = Running s' \<or> run n xi mt mc s = Returned s'"
    and h: "heap_ok (event_queue s)" "0 < arrival_rate s" "0 < service_rate s" "\<forall>n. 0 \<le> xi n"
    and f: "\<forall>e\<in>set (event_queue s). current_time s \<le> ev_time e" "current_time s \<le> 0"
  shows "current_time s \<le> current_time s'"
proof -
  let ?P = "\<lambda>t. qinv xi t \<and> current_time s \<le> current_time t"
  from r obtain s0 where s0: "run_start xi s = Inr s0"
    and l: "run_loop n xi mt mc s0 = Running s' \<or> run_loop n xi mt mc s0 = Returned s'"
    by (auto simp: run_def split: sum.splits)
  from run_start_Inr[OF s0] obtain q where
    q: "heappush (event_queue s) (xi (rng_drawn s) / arrival_rate s, Arrival,
        \<lparr>cust_id = next_customer_id s, arrival_time = xi (rng_drawn s) / arrival_rate s,
         service_start_time = None, departure_time = None\<rparr>) = Inr q"
    and s0': "s0 = s\<lparr>rng_drawn := Suc (rng_drawn s), next_customer_id := next_customer_id s + 1,
            event_queue := q\<rparr>" by blast
  from h have "0 \<le> xi (rng_drawn s) / arrival_rate s" by simp
  with f have "current_time s \<le> xi (rng_drawn s) / arrival_rate s" by linarith
  with heappush_ok[OF h(1) q] heappush_set[OF q] h f s0' have i0: "?P s0"
    by (auto simp: qinv_def ev_time_def)
  from l show ?thesis
  proof
    assume l1: "run_loop n xi mt mc s0 = Running s'"
    have "?P s'"
      by (rule run_loop_Running_induct[OF l1, where P = ?P]) (use i0 qinv_Continue in blast)+
    then show ?thesis by simp
  next
    assume l2: "run_loop n xi mt mc s0 = Returned s'"
    have "?P s'"
      by (rule run_loop_Returned_induct[OF l2, where P = ?P and Q = ?P])
        (use i0 qinv_Continue qinv_Break in blast)+
    then show ?thesis by simp
  qed
qed

text \<open>
  C8: take a run that starts with a well-formed event heap (as every queue built by
  the engine is), positive rates and non-negative draws. The times of the events it
  processes, which are the values \<open>current_time\<close> takes and which the run appends to
  \<open>time_history\<close>, are sorted: each is at least the one before it; \<open>current_time\<close>
  is the last of them. When the run starts with the clock at 0 and no pending event
  in the past, as on a new instance, the clock never goes below its starting value.
\<close>

theorem current_time_monotone:
  assumes "heap_ok (event_queue s)" and "0 < arrival_rate s" and "0 < service_rate s"
    and "\<forall>k. 0 \<le> xi k" and "\<not> is_Raised (run n xi mt mc s)"
  shows "(\<exists>new. time_history (result_state (run n xi mt mc s)) = time_history s @ new \<and>
           sorted new \<and>
           (new \<noteq> [] \<longrightarrow> current_time (result_state (run n xi mt mc s)) = last new)) \<and>
         heap_ok (event_queue (result_state (run n xi mt mc s))) \<and>
         ((\<forall>e\<in>set (event_queue s). current_time s \<le> ev_time e) \<and> current_time s \<le> 0 \<longrightarrow>
            current_time s \<le> current_time (result_state (run n xi mt mc s)))"
proof -
  let ?R = "run n xi mt mc s"
  from assms(5) have r: "?R = Running (result_state ?R) \<or> ?R = Returned (result_state ?R)"
    by (cases ?R) simp_all
  from tinv_run[OF r assms(1-4)]
  have "(\<exists>new. time_history (result_state ?R) = time_history s @ new \<and> sorted new \<and>
           (new \<noteq> [] \<longrightarrow> current_time (result_state ?R) = last new)) \<and>
         heap_ok (event_queue (result_state ?R))"
    unfolding tinv_def by blast
  moreover have "current_time s \<le> current_time (result_state ?R)"
    if "\<forall>e\<in>set (event_queue s). current_time s \<le> ev_time e" "current_time s \<le> 0"
    using clock_not_before_start[OF r assms(1-4) that] .
  ultimately show ?thesis by blast
qed

theorem current_time_monotone_witness:
  "event_queue (init_state 0 1 1 1) = [] \<and>
   0 < arrival_rate (init_state 0 1 1 1) \<and> 0 < service_rate (init_state 0 1 1 1) \<and>
   (\<forall>k. 0 \<le> late_service_draws k) \<and>
   \<not> is_Raised (run 3 late_service_draws None None (init_state 0 1 1 1)) \<and>
   time_history (result_state (run 3 late_service_draws None None (init_state 0 1 1 1))) = [1, 2, 3] \<and>
   sorted [1, 2, 3 :: real] \<and>
   current_time (result_state (run 3 late_service_draws None None (init_state 0 1 1 1))) = 3 \<and>
   current_time (init_state 0 1 1 1) \<le>
     current_time (result_state (run 3 late_service_draws None None (init_state 0 1 1 1)))"
proof -
  let ?s = "init_state 0 1 1 1"
  let ?R = "run 3 late_service_draws None None ?s"
  have h: "heap_ok (event_queue ?s)" "0 < arrival_rate ?s" "0 < service_rate ?s"
    by (simp_all add: init_state_def heap_ok_def)
  have d: "\<forall>k. 0 \<le> late_service_draws k" by (simp add: late_service_draws_def)
  have r: "is_Running ?R" "time_history (result_state ?R) = [1, 2, 3]" "time_history ?s = []"
    by code_simp+
  then have nr: "\<not> is_Raised ?R" by (cases ?R) simp_all
  from current_time_monotone[OF h d nr] r
  have "sorted [1, 2, 3 :: real] \<and> current_time (result_state ?R) = 3" by auto
  moreover have e: "current_time ?s = 0" "event_queue ?s = []" by (simp_all add: init_state_def)
  with current_time_monotone[OF h d nr] have "current_time ?s \<le> current_time (result_state ?R)"
    by simp
  ultimately show ?thesis using h d nr r e by simp
qed

section \<open>Pending arrivals (claims C9 and C10)\<close>

text \<open>
  C9: take a run that starts with no pending arrival, as on a new or reset instance.
  In every state between two events, the loop still going, the event queue holds
  exactly one arrival. Handling an arrival adds exactly one arrival to the queue;
  handling a departure adds none.
\<close>

theorem one_arrival_pending:
  "(arrivals_pending (event_queue s) = 0 \<and> is_Running (run n xi mt mc s) \<longrightarrow>
      arrivals_pending (event_queue (result_state (run n xi mt mc s))) = 1) \<and>
   (handle_arrival xi s cust = Inr s1 \<longrightarrow>
      arrivals_pending (event_queue s1) = arrivals_pending (event_queue s) + 1) \<and>
   (handle_departure xi s cust = Inr s1 \<longrightarrow>
      arrivals_pending (event_queue s1) = arrivals_pending (event_queue s))"
proof -
  let ?R = "run n xi mt mc s"
  have "arrivals_pending (event_queue (result_state ?R)) = 1"
    if "arrivals_pending (event_queue s) = 0" "is_Running ?R"
  proof -
    from that(2) have "?R = Running (result_state ?R)" by (cases ?R) simp_all
    from run_Running_arrivals[OF this] that(1) show ?thesis by simp
  qed
  then show ?thesis
    using handle_arrival_arrivals[of xi s cust s1] handle_departure_arrivals[of xi s cust s1]
    by blast
qed

theorem one_arrival_pending_witness:
  "arrivals_pending (event_queue (init_state 0 1 1 1)) = 0 \<and>
   is_Running (run 3 late_service_draws None None (init_state 0 1 1 1)) \<and>
   arrivals_pending (event_queue
     (result_state (run 3 late_service_draws None None (init_state 0 1 1 1)))) = 1 \<and>
   \<not> isl (handle_arrival unit_draws (init_state 0 1 1 1) customer_b) \<and>
   arrivals_pending (event_queue
     (projr (handle_arrival unit_draws (init_state 0 1 1 1) customer_b))) = 1 \<and>
   \<not> isl (handle_departure unit_draws ((init_state 0 1 1 1)\<lparr>busy_servers := 1\<rparr>) customer_a) \<and>
   arrivals_pending (event_queue (projr (handle_departure unit_draws
     ((init_state 0 1 1 1)\<lparr>busy_servers := 1\<rparr>) customer_a))) = 0"
proof -
  let ?s = "init_state 0 1 1 1"
  let ?R = "run 3 late_service_draws None None ?s"
  let ?A = "handle_arrival unit_draws ?s customer_b"
  let ?D = "handle_departure unit_draws (?s\<lparr>busy_servers := 1\<rparr>) customer_a"
  have h: "arrivals_pending (event_queue ?s) = 0" "is_Running ?R" "\<not> isl ?A" "\<not> isl ?D"
    "arrivals_pending (event_queue (?s\<lparr>busy_servers := 1\<rparr>)) = 0"
    by code_simp+
  from h have aeq: "?A = Inr (projr ?A)" by (cases ?A) simp_all
  from h have deq: "?D = Inr (projr ?D)" by (cases ?D) simp_all
  from one_arrival_pending[where s = ?s and n = 3 and xi = late_service_draws
      and mt = None and mc = None] h
  have 1: "arrivals_pending (event_queue (result_state ?R)) = 1" by blast
  from one_arrival_pending[where s = ?s and xi = unit_draws and cust = customer_b
      and ?s1.0 = "projr ?A"] aeq h
  have 2: "arrivals_pending (event_queue (projr ?A)) = 1" by simp
  from one_arrival_pending[where s = "?s\<lparr>busy_servers := 1\<rparr>" and xi = unit_draws
      and cust = customer_a and ?s1.0 = "projr ?D"] deq h
  have 3: "arrivals_pending (event_queue (projr ?D)) = 0" by simp
  from h 1 2 3 show ?thesis by simp
qed

text \<open>
  C10, as stated, fails. A first run on a new instance with \<open>max_time = 1/2\<close> pops
  the first arrival, at time 1, stops on it and drops it: the queue it leaves is
  empty. A second run on the same instance then holds one pending arrival, not two.
\<close>

theorem second_run_counterexample:
  "is_Returned (run 1 unit_draws (Some (1 / 2)) None (init_state 0 1 1 1)) \<and>
   event_queue after_short_run = [] \<and>
   is_Running (run 2 unit_draws (Some 10) None after_short_run) \<and>
   arrivals_pending (event_queue (result_state (run 2 unit_draws (Some 10) None after_short_run))) = 1"
  by code_simp

text \<open>
  C10, amended: every call to \<open>run\<close> schedules a fresh first arrival before its loop,
  whatever the queue already holds, so while the call goes on the queue holds one
  pending arrival more than when the call started. A call that returns has dropped
  the event it popped last, so it leaves one more pending arrival than it started
  with, or as many. A second call on the same instance therefore goes on with two
  arrival chains when the first call dropped a departure, and with one when it
  dropped its arrival.
\<close>

theorem arrival_chains_across_runs:
  "(run_start xi s = Inr s0 \<longrightarrow>
      arrivals_pending (event_queue s0) = arrivals_pending (event_queue s) + 1) \<and>
   (is_Running (run n xi mt mc s) \<longrightarrow>
      arrivals_pending (event_queue (result_state (run n xi mt mc s))) =
        arrivals_pending (event_queue s) + 1) \<and>
   (is_Returned (run n xi mt mc s) \<longrightarrow>
      arrivals_pending (event_queue (result_state (run n xi mt mc s))) =
        arrivals_pending (event_queue s) + 1 \<or>
      arrivals_pending (event_queue (result_state (run n xi mt mc s))) =
        arrivals_pending (event_queue s))"
proof -
  let ?R = "run n xi mt mc s"
  have a: "arrivals_pending (event_queue (result_state ?R)) = arrivals_pending (event_queue s) + 1"
    if "is_Running ?R"
  proof -
    from that have "?R = Running (result_state ?R)" by (cases ?R) simp_all
    from run_Running_arrivals[OF this] show ?thesis .
  qed
  have b: "arrivals_pending (event_queue (result_state ?R)) = arrivals_pending (event_queue s) + 1 \<or>
      arrivals_pending (event_queue (result_state ?R)) = arrivals_pending (event_queue s)"
    if "is_Returned ?R"
  proof -
    from that have "?R = Returned (result_state ?R)" by (cases ?R) simp_all
    from run_Returned_arrivals[OF this] show ?thesis .
  qed
  from a b run_start_arrivals[of xi s s0] show ?thesis by blast
qed

theorem arrival_chains_across_runs_witness:
  "is_Returned (run 4 late_service_draws (Some (16 / 5)) None (init_state 0 1 1 1)) \<and>
   arrivals_pending (event_queue (init_state 0 1 1 1)) = 0 \<and>
   arrivals_pending (event_queue after_cut_run) = 1 \<and>
   \<not> isl (run_start late_service_draws after_cut_run) \<and>
   arrivals_pending (event_queue (projr (run_start late_service_draws after_cut_run))) = 2 \<and>
   is_Running (run 2 late_service_draws (Some 10) None after_cut_run) \<and>
   arrivals_pending (event_queue
     (result_state (run 2 late_service_draws (Some 10) None after_cut_run))) = 2"
proof -
  let ?R1 = "run 4 late_service_draws (Some (16 / 5)) None (init_state 0 1 1 1)"
  let ?S = "run_start late_service_draws after_cut_run"
  let ?R2 = "run 2 late_service_draws (Some 10) None after_cut_run"
  have h: "is_Returned ?R1" "arrivals_pending (event_queue (init_state 0 1 1 1)) = 0"
    "arrivals_pending (event_queue after_cut_run) = 1" "\<not> isl ?S" "is_Running ?R2"
    by code_simp+
  from h have seq: "?S = Inr (projr ?S)" by (cases ?S) simp_all
  from arrival_chains_across_runs[where xi = late_service_draws and s = after_cut_run
      and ?s0.0 = "projr ?S" and n = 2 and mt = "Some 10" and mc = None] seq h
  have 1: "arrivals_pending (event_queue (projr ?S)) = 2"
    "arrivals_pending (event_queue (result_state ?R2)) = 2" by simp_all
  from arrival_chains_across_runs[where s = "init_state 0 1 1 1" and n = 4
      and xi = late_service_draws and mt = "Some (16 / 5)" and mc = None] h
  have "arrivals_pending (event_queue (result_state ?R1)) = 1 \<or>
        arrivals_pending (event_queue (result_state ?R1)) = 0" by simp
  with h 1 show ?thesis by simp
qed

end
